theory Spec2Isabelle
  imports Complex_Main
begin

section \<open>The range scanner of \<open>src/adapters/enibridgehub/index.ts\<close>\<close>

text \<open>
  Block numbers and chunk sizes are JavaScript numbers holding integers; they are
  modelled as \<open>int\<close>. A network key (\<open>Chain\<close>) is a string.
\<close>

type_synonym Chain = string

definition getChunkSize :: "Chain \<Rightarrow> int" where
  "getChunkSize chain =
     (if chain = ''bsc'' then 400
      else if chain = ''polygon'' then 1500
      else if chain = ''arbitrum'' \<or> chain = ''optimism'' \<or> chain = ''base'' then 4000
      else 3000)"

text \<open>
  The log source (\<open>getLogs\<close> of the SDK) is an external collaborator: it is a parameter of
  the model. It may answer differently from one call to the next, so it threads a state
  \<open>'s\<close> of its own; a rejected promise is \<open>Inl e\<close>, the fetched entries are \<open>Inr logs\<close>.
  The contract address and the topic are constants of every call and are left out.
\<close>

type_synonym ('s, 'e, 'l) log_source =
  "Chain \<Rightarrow> int \<Rightarrow> int \<Rightarrow> 's \<Rightarrow> ('e + 'l list) \<times> 's"

text \<open>
  \<open>allLogs.push(...logs)\<close> can throw as well: spreading more entries than the engine
  takes as arguments of one call is a \<open>RangeError\<close>. Whether it does is the runtime's
  affair, so it is a parameter too: \<open>pushErr allLogs logs\<close> is the exception the statement
  throws, if any. The arguments are spread, and the new length checked, before any entry
  is stored, so a push that throws leaves \<open>allLogs\<close> as it was.
\<close>

type_synonym ('e, 'l) push_failure = "'l list \<Rightarrow> 'l list \<Rightarrow> 'e option"

text \<open>
  The scanner is instrumented with the list of the fetch calls it issues, in order: the
  requested \<open>fromBlock\<close>, the requested \<open>toBlock\<close>, what the log source answered, and
  the exception of the push that followed a fetched answer, if it threw.
\<close>

datatype ('e, 'l) fetch_call =
  Fetch (call_from: int) (call_to: int) (call_result: "'e + 'l list")
    (append_error: "'e option")

definition call_size :: "('e, 'l) fetch_call \<Rightarrow> int" where
  "call_size c = call_to c - call_from c + 1"

text \<open>
  The exception the \<open>try\<close> block raised around a call, if any: the rejection of the fetch,
  or else the exception of the push. The attempt succeeded when there is none, and only
  then were the fetched entries appended to the result.
\<close>

definition call_error :: "('e, 'l) fetch_call \<Rightarrow> 'e option" where
  "call_error c = (case call_result c of Inl e \<Rightarrow> Some e | Inr logs \<Rightarrow> append_error c)"

definition succeeded :: "('e, 'l) fetch_call \<Rightarrow> bool" where
  "succeeded c = (call_error c = None)"

definition fetched :: "('e, 'l) fetch_call \<Rightarrow> 'l list" where
  "fetched c =
     (case call_result c of
        Inl e \<Rightarrow> []
      | Inr logs \<Rightarrow> (case append_error c of None \<Rightarrow> logs | Some e \<Rightarrow> []))"

text \<open>
  The body of the \<open>try\<close>: \<open>const logs = await getLogs(...)\<close>, then
  \<open>allLogs.push(...logs)\<close>, then \<open>break\<close>. It yields the exception that reaches the
  \<open>catch\<close>, or the new \<open>allLogs\<close>.
\<close>

definition attempt ::
  "('s, 'e, 'l) log_source \<Rightarrow> ('e, 'l) push_failure \<Rightarrow> Chain \<Rightarrow> int \<Rightarrow> int \<Rightarrow> 'l list \<Rightarrow> 's \<Rightarrow>
     ('e + 'l list) \<times> 's \<times> ('e, 'l) fetch_call" where
  "attempt getLogs pushErr chain start end allLogs s =
     (case getLogs chain start end s of
        (Inl e, s') \<Rightarrow> (Inl e, s', Fetch start end (Inl e) None)
      | (Inr logs, s') \<Rightarrow>
          (case pushErr allLogs logs of
             Some e \<Rightarrow> (Inl e, s', Fetch start end (Inr logs) (Some e))
           | None \<Rightarrow> (Inr (allLogs @ logs), s', Fetch start end (Inr logs) None)))"

text \<open>
  The inner \<open>while (true)\<close> loop of \<open>getLogsSafe\<close>, for one value of \<open>start\<close>: run the
  \<open>try\<close> on \<open>[start, end]\<close>; when it completes leave the loop; in the \<open>catch\<close> rethrow
  when the range has at most 50 blocks, else set \<open>end = start + Math.floor(range / 2)\<close>
  and retry.
\<close>

function retry_loop ::
  "('s, 'e, 'l) log_source \<Rightarrow> ('e, 'l) push_failure \<Rightarrow> Chain \<Rightarrow> int \<Rightarrow> int \<Rightarrow> 'l list \<Rightarrow> 's \<Rightarrow>
     ('e + 'l list) \<times> 's \<times> ('e, 'l) fetch_call list" where
  "retry_loop getLogs pushErr chain start end allLogs s =
     (case attempt getLogs pushErr chain start end allLogs s of
        (Inr allLogs', s', c) \<Rightarrow> (Inr allLogs', s', [c])
      | (Inl e, s', c) \<Rightarrow>
          (let range' = end - start + 1 in
           if range' \<le> 50 then (Inl e, s', [c])
           else (case retry_loop getLogs pushErr chain start (start + range' div 2) allLogs s' of
                   (r, s'', tr) \<Rightarrow> (r, s'', c # tr))))"
  by pat_completeness auto
termination
  by (relation "measure (\<lambda>(getLogs, pushErr, chain, start, end, allLogs, s). nat (end - start + 1))")
     auto

text \<open>
  The outer \<open>for (let start = fromBlock; start <= toBlock; start += chunkSize)\<close> loop.
  \<open>chunkSize\<close> is the constant \<open>getChunkSize(chain)\<close> computed before the loop; the model
  reads it from \<open>chain\<close> in every iteration, which is the same value. A throw of the inner
  loop leaves the function; otherwise the loop goes on with the next \<open>start\<close>.
\<close>

function chunk_loop ::
  "('s, 'e, 'l) log_source \<Rightarrow> ('e, 'l) push_failure \<Rightarrow> Chain \<Rightarrow> int \<Rightarrow> int \<Rightarrow> 'l list \<Rightarrow> 's \<Rightarrow>
     ('e + 'l list) \<times> 's \<times> ('e, 'l) fetch_call list" where
  "chunk_loop getLogs pushErr chain toBlock start allLogs s =
     (if start \<le> toBlock then
        (let chunkSize = getChunkSize chain;
             end = min (start + chunkSize - 1) toBlock
         in case retry_loop getLogs pushErr chain start end allLogs s of
              (Inl e, s', tr) \<Rightarrow> (Inl e, s', tr)
            | (Inr allLogs', s', tr) \<Rightarrow>
                (case chunk_loop getLogs pushErr chain toBlock (start + chunkSize) allLogs' s' of
                   (r, s'', tr') \<Rightarrow> (r, s'', tr @ tr')))
      else (Inr allLogs, s, []))"
  by pat_completeness auto
termination
  by (relation "measure (\<lambda>(getLogs, pushErr, chain, toBlock, start, allLogs, s).
        nat (toBlock - start + 1))")
     (auto simp: getChunkSize_def)

definition getLogsSafe ::
  "('s, 'e, 'l) log_source \<Rightarrow> ('e, 'l) push_failure \<Rightarrow> Chain \<Rightarrow> int \<Rightarrow> int \<Rightarrow> 's \<Rightarrow>
     ('e + 'l list) \<times> 's \<times> ('e, 'l) fetch_call list" where
  "getLogsSafe getLogs pushErr chain fromBlock toBlock s =
     chunk_loop getLogs pushErr chain toBlock fromBlock [] s"

section \<open>The event classifier\<close>

text \<open>
  A raw log entry as the log source returns it, the arguments of a decoded
  \<open>BridgeExecuted\<close> event (\<open>parsed.args\<close>), and the record an adapter pushes. The fields
  \<open>blockNumber\<close>, \<open>from\<close> and \<open>to\<close> of the pushed record carry a prime, the first to tell
  it from the log's field, the others because the bare names are reserved words.
\<close>

record log =
  transactionHash :: string
  blockNumber :: int
  topics :: "string list"
  data :: string

record args =
  sender :: string
  recipient :: string
  inputToken :: string
  outputToken :: string
  inputAmount :: nat
  extData :: string

record event =
  txHash :: string
  blockNumber' :: int
  from' :: string
  to' :: string
  token :: string
  amount :: nat
  isDeposit :: bool

text \<open>
  A decoded text is a \<open>string\<close>; the pattern of the classifier only tells the
  characters \<open>c\<close>, \<open>=\<close>, \<open>&\<close>, \<open>?\<close> and the ten digits from all others.
  The library calls the classifier makes are parameters: \<open>iface.parseLog\<close> and
  \<open>ethers.utils.toUtf8String\<close> of ethers, and
  \<open>Buffer.from(extDataHex.replace(/^0x/, ""), "hex").toString()\<close> of Node. Each returns
  \<open>None\<close> where the call throws.
\<close>

record library =
  parseLog :: "log \<Rightarrow> args option"
  toUtf8String :: "string \<Rightarrow> string option"
  bufferToString :: "string \<Rightarrow> string option"

text \<open>
  \<open>\d\<close> matches the characters \<open>0\<close> to \<open>9\<close>, U+0030 to U+0039.
\<close>

definition is_digit :: "char \<Rightarrow> bool" where
  "is_digit ch = (48 \<le> (of_char ch :: nat) \<and> (of_char ch :: nat) \<le> 57)"

text \<open>
  A JavaScript number is a double. \<open>Number(match[2])\<close> on a string of decimal digits is
  the double nearest to the integer the digits denote, ties going to the even
  significand, and \<open>Infinity\<close> when that rounding reaches \<open>2^1024\<close>; this is what
  Node's engine computes (the language lets an engine round a literal of more than 20
  significant digits less exactly). An integer below
  \<open>2^53\<close> is a double. From \<open>2^53\<close> on, an integer of \<open>53 + e\<close> bits is rounded to a
  multiple of \<open>2^e\<close>: \<open>q\<close> is its leading 53 bits and \<open>r\<close> the \<open>e\<close> bits cut off.
\<close>

datatype number = Finite nat | PosInfinity

fun bit_length :: "nat \<Rightarrow> nat" where
  "bit_length n = (if n = 0 then 0 else Suc (bit_length (n div 2)))"

definition nearest_double :: "nat \<Rightarrow> number" where
  "nearest_double n =
     (if n < 2 ^ 53 then Finite n
      else
        (let e = bit_length n - 53;
             q = n div 2 ^ e;
             r = n mod 2 ^ e;
             q' = (if 2 ^ e < 2 * r \<or> (2 * r = 2 ^ e \<and> odd q) then q + 1 else q)
         in if 2 ^ 1024 \<le> q' * 2 ^ e then PosInfinity else Finite (q' * 2 ^ e)))"

definition Number :: "string \<Rightarrow> number" where
  "Number ds = nearest_double (foldl (\<lambda>n d. 10 * n + (of_char d - 48)) 0 ds)"

text \<open>
  The regular expression \<open>/(^|[&?])c=(\d+)/\<close>. \<open>key_digits\<close> matches \<open>c=(\d+)\<close> at the
  head of a text and returns capture group 2, the longest run of digits (\<open>\d+\<close> is greedy
  and nothing follows it). \<open>String.prototype.match\<close> takes the leftmost match: at index 0
  the alternative \<open>^\<close>, then at each index from the left the alternative \<open>[&?]\<close>.
\<close>

fun key_digits :: "string \<Rightarrow> string option" where
  "key_digits (k # q # rest) =
     (if k = CHR ''c'' \<and> q = CHR ''='' \<and> takeWhile is_digit rest \<noteq> []
      then Some (takeWhile is_digit rest) else None)"
| "key_digits _ = None"

fun after_delimiter :: "string \<Rightarrow> string option" where
  "after_delimiter [] = None"
| "after_delimiter (d # rest) =
     (if d = CHR ''&'' \<or> d = CHR ''?''
      then (case key_digits rest of Some ds \<Rightarrow> Some ds | None \<Rightarrow> after_delimiter rest)
      else after_delimiter rest)"

definition match_c :: "string \<Rightarrow> string option" where
  "match_c text = (case key_digits text of Some ds \<Rightarrow> Some ds | None \<Rightarrow> after_delimiter text)"

definition getDestinationChainId :: "library \<Rightarrow> string \<Rightarrow> number option" where
  "getDestinationChainId lib extDataHex =
     (case toUtf8String lib extDataHex of
        Some decoded \<Rightarrow>
          (case match_c decoded of Some ds \<Rightarrow> Some (Number ds) | None \<Rightarrow> None)
      | None \<Rightarrow>
          (case bufferToString lib extDataHex of
             Some ascii \<Rightarrow>
               (case match_c ascii of Some ds \<Rightarrow> Some (Number ds) | None \<Rightarrow> None)
           | None \<Rightarrow> None))"

definition isDestinationENI :: "library \<Rightarrow> string \<Rightarrow> bool" where
  "isDestinationENI lib extDataHex = (getDestinationChainId lib extDataHex = Some (Finite 173))"

text \<open>
  The \<open>for (const log of logs)\<close> loop of \<open>inflowAdapter\<close>: a log that does not parse is
  skipped, a log whose destination is not ENI is skipped, any other is pushed.
\<close>

primrec inflow_events :: "library \<Rightarrow> log list \<Rightarrow> event list" where
  "inflow_events lib [] = []"
| "inflow_events lib (log' # logs) =
     (case parseLog lib log' of
        None \<Rightarrow> inflow_events lib logs
      | Some parsed \<Rightarrow>
          if \<not> isDestinationENI lib (extData parsed) then inflow_events lib logs
          else \<lparr>txHash = transactionHash log', blockNumber' = blockNumber log',
                from' = sender parsed, to' = recipient parsed, token = inputToken parsed,
                amount = inputAmount parsed, isDeposit = True\<rparr> # inflow_events lib logs)"

text \<open>
  The loop of \<open>outflowAdapter\<close>: a log that does not parse is skipped, a log whose
  destination is ENI is skipped, any other is pushed.
\<close>

primrec outflow_events :: "library \<Rightarrow> log list \<Rightarrow> event list" where
  "outflow_events lib [] = []"
| "outflow_events lib (log' # logs) =
     (case parseLog lib log' of
        None \<Rightarrow> outflow_events lib logs
      | Some parsed \<Rightarrow>
          if isDestinationENI lib (extData parsed) then outflow_events lib logs
          else \<lparr>txHash = transactionHash log', blockNumber' = blockNumber log',
                from' = sender parsed, to' = recipient parsed, token = inputToken parsed,
                amount = inputAmount parsed, isDeposit = False\<rparr> # outflow_events lib logs)"

definition ENI_CHAIN :: Chain where
  "ENI_CHAIN = ''eni''"

definition inflowAdapter ::
  "library \<Rightarrow> ('s, 'e, log) log_source \<Rightarrow> ('e, log) push_failure \<Rightarrow> Chain \<Rightarrow> int \<Rightarrow> int \<Rightarrow> 's \<Rightarrow>
     ('e + event list) \<times> 's \<times> ('e, log) fetch_call list" where
  "inflowAdapter lib getLogs pushErr chain fromBlock toBlock s =
     (case getLogsSafe getLogs pushErr chain fromBlock toBlock s of
        (Inl e, s', tr) \<Rightarrow> (Inl e, s', tr)
      | (Inr logs, s', tr) \<Rightarrow> (Inr (inflow_events lib logs), s', tr))"

definition outflowAdapter ::
  "library \<Rightarrow> ('s, 'e, log) log_source \<Rightarrow> ('e, log) push_failure \<Rightarrow> int \<Rightarrow> int \<Rightarrow> 's \<Rightarrow>
     ('e + event list) \<times> 's \<times> ('e, log) fetch_call list" where
  "outflowAdapter lib getLogs pushErr fromBlock toBlock s =
     (case getLogsSafe getLogs pushErr ENI_CHAIN fromBlock toBlock s of
        (Inl e, s', tr) \<Rightarrow> (Inl e, s', tr)
      | (Inr logs, s', tr) \<Rightarrow> (Inr (outflow_events lib logs), s', tr))"

section \<open>Vocabulary of the properties\<close>

text \<open>
  A terminal failure is a failed attempt on a range of at most 50 blocks. A shrink step
  relates a failed attempt to the retry that follows it: same start, the end halved. A
  call is resolved when the log source answered it with entries.
\<close>

definition terminal_failure :: "('e, 'l) fetch_call \<Rightarrow> bool" where
  "terminal_failure c = (call_error c \<noteq> None \<and> call_size c \<le> 50)"

definition shrink_step :: "('e, 'l) fetch_call \<Rightarrow> ('e, 'l) fetch_call \<Rightarrow> bool" where
  "shrink_step c d =
     (50 < call_size c \<and> call_from d = call_from c \<and>
      call_to d = call_from c + call_size c div 2 \<and> call_size d < call_size c)"

definition resolved :: "('e, 'l) fetch_call \<Rightarrow> bool" where
  "resolved c = (\<not> isl (call_result c))"

text \<open>
  The sub-ranges a scan has fetched, in order, and what it is for a list of sub-ranges to
  cover \<open>[fromBlock, toBlock]\<close> exactly: each begins where the one before ended, the
  first at \<open>fromBlock\<close>, the last ending at \<open>toBlock\<close>.
\<close>

definition fetched_ranges :: "('e, 'l) fetch_call list \<Rightarrow> (int \<times> int) list" where
  "fetched_ranges tr = map (\<lambda>c. (call_from c, call_to c)) (filter succeeded tr)"

fun covers :: "int \<Rightarrow> int \<Rightarrow> (int \<times> int) list \<Rightarrow> bool" where
  "covers fromBlock toBlock [] = (fromBlock = toBlock + 1)"
| "covers fromBlock toBlock ((a, b) # ranges) =
     (a = fromBlock \<and> a \<le> b \<and> covers (b + 1) toBlock ranges)"

text \<open>
  The destination of a decoded text in the words of the specification, written without
  the functions of the classifier. A decimal digit is one of the ten characters \<open>0\<close> to
  \<open>9\<close>, its value is its place among them, and a string of digits denotes the sum of
  the values of its digits, each times the power of ten of its place. A key is a \<open>c=\<close>
  followed by at least one digit, at the start of the text or right after a \<open>&\<close> or a
  \<open>?\<close>. The destination is the integer denoted by the digits that follow the first
  key; there is none when the text has no key.
\<close>

definition decimal_digit :: "char \<Rightarrow> bool" where
  "decimal_digit ch = (ch \<in> set ''0123456789'')"

definition digit_value :: "char \<Rightarrow> nat" where
  "digit_value ch = length (takeWhile (\<lambda>d. d \<noteq> ch) ''0123456789'')"

fun decimal_value :: "string \<Rightarrow> nat" where
  "decimal_value [] = 0"
| "decimal_value (d # ds) = digit_value d * 10 ^ length ds + decimal_value ds"

definition key_at :: "string \<Rightarrow> nat \<Rightarrow> bool" where
  "key_at text i =
     (i + 2 < length text \<and> text ! i = CHR ''c'' \<and> text ! (i + 1) = CHR ''='' \<and>
      decimal_digit (text ! (i + 2)) \<and>
      (i = 0 \<or> text ! (i - 1) = CHR ''&'' \<or> text ! (i - 1) = CHR ''?''))"

definition first_key :: "string \<Rightarrow> nat option" where
  "first_key text = find (key_at text) [0..<length text]"

definition digits_after :: "string \<Rightarrow> nat \<Rightarrow> string" where
  "digits_after text i = takeWhile decimal_digit (drop (i + 2) text)"


definition delimiter :: "char \<Rightarrow> bool" where
  "delimiter d = (d = CHR ''&'' \<or> d = CHR ''?'')"

subsection \<open>Fixtures for the examples\<close>

text \<open>
  A log source for the examples: it holds the logs of a chain, rejects a query of more
  than \<open>maxRange\<close> blocks, answers any other with the logs of the queried range, and
  counts the queries it has received.
\<close>

definition node :: "int \<Rightarrow> log list \<Rightarrow> (nat, string, log) log_source" where
  "node maxRange chainLogs chain a b queries =
     (if maxRange < b - a + 1 then (Inl ''query exceeds limit'', Suc queries)
      else (Inr (filter (\<lambda>l. a \<le> blockNumber l \<and> blockNumber l \<le> b) chainLogs), Suc queries))"

text \<open>
  Two runtimes for the examples: in the first a push throws when it spreads more than
  \<open>maxArgs\<close> entries, whatever has been collected so far; in the second no push throws.
\<close>

definition spread_limit :: "nat \<Rightarrow> (string, 'l) push_failure" where
  "spread_limit maxArgs allLogs logs =
     (if maxArgs < length logs then Some ''RangeError'' else None)"

definition push_never_throws :: "('e, 'l) push_failure" where
  "push_never_throws allLogs logs = None"

text \<open>
  A library for the examples: a log parses when its only topic is \<open>BridgeExecuted\<close>; its
  data is then the routing text itself, which both text decoders return as it is.
\<close>

definition example_lib :: library where
  "example_lib =
     \<lparr>parseLog = (\<lambda>l. if topics l = [''BridgeExecuted'']
                       then Some \<lparr>sender = ''0xa1'', recipient = ''0xb2'', inputToken = ''0xc3'',
                                  outputToken = ''0xd4'', inputAmount = 1000, extData = data l\<rparr>
                       else None),
      toUtf8String = Some,
      bufferToString = Some\<rparr>"

definition example_log :: "int \<Rightarrow> string \<Rightarrow> log" where
  "example_log n text =
     \<lparr>transactionHash = ''0xf00d'', blockNumber = n, topics = [''BridgeExecuted''], data = text\<rparr>"

definition example_chain :: "log list" where
  "example_chain =
     [example_log 10 ''c=173'', example_log 150 ''c=56'', example_log 450 ''r=1&c=173'',
      example_log 900 ''xyz'']"

section \<open>The retry loop\<close>

declare retry_loop.simps [simp del] chunk_loop.simps [simp del] bit_length.simps [simp del]

lemma attempt_Inr:
  "attempt getLogs pushErr chain a b allLogs s = (Inr allLogs', s', c) \<Longrightarrow>
     succeeded c \<and> resolved c \<and> call_from c = a \<and> call_to c = b \<and>
     allLogs' = allLogs @ fetched c"
  by (auto simp: attempt_def succeeded_def resolved_def call_error_def fetched_def
           split: prod.splits sum.splits option.splits)

lemma attempt_Inl:
  "attempt getLogs pushErr chain a b allLogs s = (Inl e, s', c) \<Longrightarrow>
     call_error c = Some e \<and> call_from c = a \<and> call_to c = b \<and> fetched c = []"
  by (auto simp: attempt_def call_error_def fetched_def
           split: prod.splits sum.splits option.splits)

lemma attempt_answer:
  "attempt getLogs pushErr chain a b allLogs s = (r, s', c) \<Longrightarrow>
     call_result c = fst (getLogs chain a b s) \<and>
     (isl (call_result c) \<longrightarrow> r = call_result c)"
  by (auto simp: attempt_def split: prod.splits sum.splits option.splits)

lemma retry_loop_ok:
  "attempt getLogs pushErr chain a b allLogs s = (Inr allLogs', s', c) \<Longrightarrow>
   retry_loop getLogs pushErr chain a b allLogs s = (Inr allLogs', s', [c])"
  by (subst retry_loop.simps) simp

lemma retry_loop_give_up:
  "attempt getLogs pushErr chain a b allLogs s = (Inl e, s', c) \<Longrightarrow> b - a + 1 \<le> 50 \<Longrightarrow>
   retry_loop getLogs pushErr chain a b allLogs s = (Inl e, s', [c])"
  by (subst retry_loop.simps) simp

lemma retry_loop_shrink:
  "attempt getLogs pushErr chain a b allLogs s = (Inl e, s', c) \<Longrightarrow> 50 < b - a + 1 \<Longrightarrow>
   retry_loop getLogs pushErr chain a b allLogs s =
     (case retry_loop getLogs pushErr chain a (a + (b - a + 1) div 2) allLogs s' of
        (r, s'', tr) \<Rightarrow> (r, s'', c # tr))"
  by (subst retry_loop.simps) (simp add: Let_def)

lemma retry_loop_cases:
  fixes getLogs :: "('s, 'e, 'l) log_source"
  obtains (ok) allLogs' s' c where
      "attempt getLogs pushErr chain a b allLogs s = (Inr allLogs', s', c)"
  | (give_up) e s' c where
      "attempt getLogs pushErr chain a b allLogs s = (Inl e, s', c)" "b - a + 1 \<le> 50"
  | (shrink) e s' c where
      "attempt getLogs pushErr chain a b allLogs s = (Inl e, s', c)" "50 < b - a + 1"
proof (cases "attempt getLogs pushErr chain a b allLogs s")
  case (fields x s' c)
  then show ?thesis
    by (cases x; cases "b - a + 1 \<le> 50") (auto intro: that)
qed

text \<open>
  The trace of the retry loop: failed attempts on more than 50 blocks from the same
  start, then one last attempt, which either succeeded and appended what it fetched, or
  failed on at most 50 blocks with the error the loop throws.
\<close>

lemma retry_loop_trace:
  "retry_loop getLogs pushErr chain a b allLogs s = (r, s', tr) \<Longrightarrow>
     \<exists>pre c. tr = pre @ [c] \<and> call_from c = a \<and> call_to c \<le> b \<and> (a \<le> b \<longrightarrow> a \<le> call_to c) \<and>
       (case r of
          Inl e \<Rightarrow> call_error c = Some e \<and> call_size c \<le> 50
        | Inr allLogs' \<Rightarrow> succeeded c \<and> allLogs' = allLogs @ fetched c) \<and>
       (\<forall>d\<in>set pre. call_error d \<noteq> None \<and> fetched d = [] \<and> 50 < call_size d \<and>
          call_from d = a \<and> call_to d \<le> b)"
proof (induction getLogs pushErr chain a b allLogs s arbitrary: r s' tr rule: retry_loop.induct)
  case (1 getLogs pushErr chain a b allLogs s)
  show ?case
  proof (cases rule: retry_loop_cases [of getLogs pushErr chain a b allLogs s])
    case (ok allLogs' t c)
    with "1.prems" have "tr = [] @ [c]" "r = Inr allLogs'"
      by (auto simp: retry_loop_ok)
    with attempt_Inr [OF ok] show ?thesis
      by (intro exI [of _ "[]"] exI [of _ c]) simp
  next
    case (give_up e t c)
    with "1.prems" have "tr = [] @ [c]" "r = Inl e"
      by (auto simp: retry_loop_give_up)
    with attempt_Inl [OF give_up(1)] give_up(2) show ?thesis
      by (intro exI [of _ "[]"] exI [of _ c]) (simp add: call_size_def)
  next
    case (shrink e t c)
    let ?b = "a + (b - a + 1) div 2"
    obtain r2 s2 tr2 where rec: "retry_loop getLogs pushErr chain a ?b allLogs t = (r2, s2, tr2)"
      by (cases "retry_loop getLogs pushErr chain a ?b allLogs t") auto
    from "1.prems" shrink rec have eq: "r = r2" "s' = s2" "tr = c # tr2"
      by (simp_all add: retry_loop_shrink)
    from "1.IH" [OF shrink(1) [symmetric] refl refl refl _ rec] shrink(2)
    obtain pre c2 where h: "tr2 = pre @ [c2]" "call_from c2 = a" "call_to c2 \<le> ?b"
      "a \<le> ?b \<longrightarrow> a \<le> call_to c2"
      "case r2 of Inl e \<Rightarrow> call_error c2 = Some e \<and> call_size c2 \<le> 50
        | Inr allLogs' \<Rightarrow> succeeded c2 \<and> allLogs' = allLogs @ fetched c2"
      "\<forall>d\<in>set pre. call_error d \<noteq> None \<and> fetched d = [] \<and> 50 < call_size d \<and>
          call_from d = a \<and> call_to d \<le> ?b"
      by auto
    have "tr = (c # pre) @ [c2]" using eq h by simp
    moreover have "call_to c2 \<le> b" using h(3) shrink(2) by linarith
    moreover have "a \<le> call_to c2" using h(4) shrink(2) by linarith
    moreover have "\<forall>d\<in>set (c # pre). call_error d \<noteq> None \<and> fetched d = [] \<and> 50 < call_size d \<and>
          call_from d = a \<and> call_to d \<le> b"
      using h(6) shrink(2) attempt_Inl [OF shrink(1)] by (auto simp: call_size_def)
    ultimately show ?thesis using h(2,5) eq
      by (intro exI [of _ "c # pre"] exI [of _ c2]) simp
  qed
qed

lemma retry_loop_shrinks:
  "retry_loop getLogs pushErr chain a b allLogs s = (r, s', tr) \<Longrightarrow>
     successively (\<lambda>c d. call_error c \<noteq> None \<longrightarrow> shrink_step c d) tr \<and>
     tr \<noteq> [] \<and> call_from (hd tr) = a \<and> call_to (hd tr) = b"
proof (induction getLogs pushErr chain a b allLogs s arbitrary: r s' tr rule: retry_loop.induct)
  case (1 getLogs pushErr chain a b allLogs s)
  show ?case
  proof (cases rule: retry_loop_cases [of getLogs pushErr chain a b allLogs s])
    case (ok allLogs' t c)
    with "1.prems" attempt_Inr [OF ok] show ?thesis by (auto simp: retry_loop_ok)
  next
    case (give_up e t c)
    with "1.prems" attempt_Inl [OF give_up(1)] show ?thesis by (auto simp: retry_loop_give_up)
  next
    case (shrink e t c)
    let ?b = "a + (b - a + 1) div 2"
    obtain r2 s2 tr2 where rec: "retry_loop getLogs pushErr chain a ?b allLogs t = (r2, s2, tr2)"
      by (cases "retry_loop getLogs pushErr chain a ?b allLogs t") auto
    from "1.prems" shrink rec have eq: "tr = c # tr2"
      by (simp add: retry_loop_shrink)
    from "1.IH" [OF shrink(1) [symmetric] refl refl refl _ rec] shrink(2)
    have h: "successively (\<lambda>c d. call_error c \<noteq> None \<longrightarrow> shrink_step c d) tr2"
      "tr2 \<noteq> []" "call_from (hd tr2) = a" "call_to (hd tr2) = ?b"
      by auto
    note c = attempt_Inl [OF shrink(1)]
    have "shrink_step c (hd tr2)"
      using h(3,4) shrink(2) c by (simp add: shrink_step_def call_size_def)
    with h(1,2) c show ?thesis unfolding eq
      by (cases tr2) auto
  qed
qed

lemma retry_loop_attempts:
  "retry_loop getLogs pushErr chain a b allLogs s = (r, s', tr) \<Longrightarrow> 1 < length tr \<Longrightarrow>
     48 * 2 ^ (length tr - 2) < b - a - 1"
proof (induction getLogs pushErr chain a b allLogs s arbitrary: r s' tr rule: retry_loop.induct)
  case (1 getLogs pushErr chain a b allLogs s)
  show ?case
  proof (cases rule: retry_loop_cases [of getLogs pushErr chain a b allLogs s])
    case (ok allLogs' t c)
    with "1.prems" show ?thesis by (auto simp: retry_loop_ok)
  next
    case (give_up e t c)
    with "1.prems" show ?thesis by (auto simp: retry_loop_give_up)
  next
    case (shrink e t c)
    let ?b = "a + (b - a + 1) div 2"
    obtain r2 s2 tr2 where rec: "retry_loop getLogs pushErr chain a ?b allLogs t = (r2, s2, tr2)"
      by (cases "retry_loop getLogs pushErr chain a ?b allLogs t") auto
    from "1.prems" shrink rec have eq: "tr = c # tr2"
      by (simp add: retry_loop_shrink)
    show ?thesis
    proof (cases "1 < length tr2")
      case True
      from "1.IH" [OF shrink(1) [symmetric] refl refl refl _ rec True] shrink(2)
      have "48 * 2 ^ (length tr2 - 2) < (b - a + 1) div 2 - 1" by simp
      moreover have "length tr - 2 = Suc (length tr2 - 2)" using True eq by simp
      ultimately show ?thesis by simp
    next
      case False
      with retry_loop_shrinks [OF rec] have "length tr2 = 1"
        by (cases tr2) auto
      with eq shrink(2) show ?thesis by simp
    qed
  qed
qed

lemma retry_loop_answers:
  "retry_loop getLogs pushErr chain a b allLogs s = (r, s', tr) \<Longrightarrow>
     \<forall>c\<in>set tr. \<exists>t. fst (getLogs chain (call_from c) (call_to c) t) = call_result c"
proof (induction getLogs pushErr chain a b allLogs s arbitrary: r s' tr rule: retry_loop.induct)
  case (1 getLogs pushErr chain a b allLogs s)
  have one: "\<exists>t. fst (getLogs chain (call_from c) (call_to c) t) = call_result c"
    if "attempt getLogs pushErr chain a b allLogs s = (x, t, c)" for x t c
  proof -
    from that have "call_from c = a" "call_to c = b"
      using attempt_Inl [of getLogs pushErr chain a b allLogs s _ t c]
        attempt_Inr [of getLogs pushErr chain a b allLogs s _ t c]
      by (cases x; simp)+
    with attempt_answer [OF that] show ?thesis by (intro exI [of _ s]) simp
  qed
  show ?case
  proof (cases rule: retry_loop_cases [of getLogs pushErr chain a b allLogs s])
    case (ok allLogs' t c)
    with "1.prems" have "tr = [c]" by (auto simp: retry_loop_ok)
    with one [OF ok] show ?thesis by simp
  next
    case (give_up e t c)
    with "1.prems" have "tr = [c]" by (auto simp: retry_loop_give_up)
    with one [OF give_up(1)] show ?thesis by simp
  next
    case (shrink e t c)
    let ?b = "a + (b - a + 1) div 2"
    obtain r2 s2 tr2 where rec: "retry_loop getLogs pushErr chain a ?b allLogs t = (r2, s2, tr2)"
      by (cases "retry_loop getLogs pushErr chain a ?b allLogs t") auto
    from "1.prems" shrink rec have eq: "tr = c # tr2"
      by (simp add: retry_loop_shrink)
    from "1.IH" [OF shrink(1) [symmetric] refl refl refl _ rec] shrink(2)
    have "\<forall>c\<in>set tr2. \<exists>t. fst (getLogs chain (call_from c) (call_to c) t) = call_result c"
      by simp
    with one [OF shrink(1)] show ?thesis unfolding eq by simp
  qed
qed

lemma chunk_loop_done:
  "toBlock < start \<Longrightarrow>
   chunk_loop getLogs pushErr chain toBlock start allLogs s = (Inr allLogs, s, [])"
  by (subst chunk_loop.simps) simp

lemma chunk_loop_throw:
  "start \<le> toBlock \<Longrightarrow>
   retry_loop getLogs pushErr chain start (min (start + getChunkSize chain - 1) toBlock) allLogs s
     = (Inl e, s', tr) \<Longrightarrow>
   chunk_loop getLogs pushErr chain toBlock start allLogs s = (Inl e, s', tr)"
  by (subst chunk_loop.simps) (simp add: Let_def)

lemma chunk_loop_next:
  "start \<le> toBlock \<Longrightarrow>
   retry_loop getLogs pushErr chain start (min (start + getChunkSize chain - 1) toBlock) allLogs s
     = (Inr allLogs', s', tr) \<Longrightarrow>
   chunk_loop getLogs pushErr chain toBlock start allLogs s =
     (case chunk_loop getLogs pushErr chain toBlock (start + getChunkSize chain) allLogs' s' of
        (r, s'', tr') \<Rightarrow> (r, s'', tr @ tr'))"
  by (subst chunk_loop.simps) (simp add: Let_def)

lemma chunk_loop_cases:
  fixes getLogs :: "('s, 'e, 'l) log_source"
  obtains (finished) "toBlock < start"
  | (thrown) e s' tr where "start \<le> toBlock"
      "retry_loop getLogs pushErr chain start (min (start + getChunkSize chain - 1) toBlock)
         allLogs s = (Inl e, s', tr)"
  | (advance) allLogs' s' tr where "start \<le> toBlock"
      "retry_loop getLogs pushErr chain start (min (start + getChunkSize chain - 1) toBlock)
         allLogs s = (Inr allLogs', s', tr)"
proof (cases "toBlock < start")
  case True
  then show ?thesis by (rule that(1))
next
  case False
  let ?run = "retry_loop getLogs pushErr chain start
      (min (start + getChunkSize chain - 1) toBlock) allLogs s"
  obtain x s' tr where "?run = (x, s', tr)"
    by (cases ?run) auto
  with False show ?thesis
    by (cases x) (auto intro: that(2,3))
qed

lemma getChunkSize_pos: "0 < getChunkSize chain"
  by (simp add: getChunkSize_def)

lemma getChunkSize_le: "getChunkSize chain \<le> 4000"
  by (simp add: getChunkSize_def)

section \<open>The chunk loop\<close>

lemma chunk_loop_failure:
  "chunk_loop getLogs pushErr chain toBlock start allLogs s = (r, s', tr) \<Longrightarrow>
     (case r of
        Inl e \<Rightarrow> \<exists>pre c. tr = pre @ [c] \<and> call_error c = Some e \<and> call_size c \<le> 50 \<and>
                   (\<forall>d\<in>set pre. \<not> terminal_failure d)
      | Inr logs \<Rightarrow> \<forall>c\<in>set tr. \<not> terminal_failure c)"
proof (induction getLogs pushErr chain toBlock start allLogs s arbitrary: r s' tr
    rule: chunk_loop.induct)
  case (1 getLogs pushErr chain toBlock start allLogs s)
  show ?case
  proof (cases rule: chunk_loop_cases [where toBlock = toBlock and start = start
        and getLogs = getLogs and pushErr = pushErr and chain = chain and allLogs = allLogs
        and s = s])
    case finished
    with "1.prems" show ?thesis by (auto simp: chunk_loop_done)
  next
    case (thrown e t tr1)
    with "1.prems" have eq: "r = Inl e" "tr = tr1" by (simp_all add: chunk_loop_throw)
    from retry_loop_trace [OF thrown(2)] obtain pre c where
      h: "tr1 = pre @ [c]" "call_error c = Some e" "call_size c \<le> 50"
         "\<forall>d\<in>set pre. 50 < call_size d"
      by auto
    from h(4) have "\<forall>d\<in>set pre. \<not> terminal_failure d"
      by (auto simp: terminal_failure_def)
    with h(1-3) eq show ?thesis by auto
  next
    case (advance allLogs' t tr1)
    let ?next = "chunk_loop getLogs pushErr chain toBlock (start + getChunkSize chain) allLogs' t"
    obtain r2 s2 tr2 where rec: "?next = (r2, s2, tr2)"
      by (cases ?next) auto
    with "1.prems" advance have eq: "r = r2" "tr = tr1 @ tr2" by (simp_all add: chunk_loop_next)
    from retry_loop_trace [OF advance(2)] obtain pre c where
      h: "tr1 = pre @ [c]" "succeeded c" "\<forall>d\<in>set pre. 50 < call_size d"
      by auto
    then have clean: "\<forall>c\<in>set tr1. \<not> terminal_failure c"
      by (auto simp: terminal_failure_def succeeded_def)
    note ih = "1.IH" [OF advance(1) refl refl advance(2) [symmetric] refl refl rec]
    show ?thesis
    proof (cases r2)
      case (Inl e)
      with ih obtain pre2 c2 where
        "tr2 = pre2 @ [c2]" "call_error c2 = Some e" "call_size c2 \<le> 50"
        "\<forall>d\<in>set pre2. \<not> terminal_failure d"
        by auto
      with clean have "tr = (tr1 @ pre2) @ [c2] \<and> call_error c2 = Some e \<and> call_size c2 \<le> 50 \<and>
          (\<forall>d\<in>set (tr1 @ pre2). \<not> terminal_failure d)"
        using eq by auto
      then show ?thesis using eq Inl by (simp only: sum.case) blast
    next
      case (Inr ls)
      with ih clean eq show ?thesis by auto
    qed
  qed
qed

lemma chunk_loop_shrinks:
  "chunk_loop getLogs pushErr chain toBlock start allLogs s = (r, s', tr) \<Longrightarrow>
     successively (\<lambda>c d. call_error c \<noteq> None \<longrightarrow> shrink_step c d) tr"
proof (induction getLogs pushErr chain toBlock start allLogs s arbitrary: r s' tr
    rule: chunk_loop.induct)
  case (1 getLogs pushErr chain toBlock start allLogs s)
  show ?case
  proof (cases rule: chunk_loop_cases [where toBlock = toBlock and start = start
        and getLogs = getLogs and pushErr = pushErr and chain = chain and allLogs = allLogs
        and s = s])
    case finished
    with "1.prems" show ?thesis by (auto simp: chunk_loop_done)
  next
    case (thrown e t tr1)
    with "1.prems" have "tr = tr1" by (simp add: chunk_loop_throw)
    with retry_loop_shrinks [OF thrown(2)] show ?thesis by simp
  next
    case (advance allLogs' t tr1)
    let ?next = "chunk_loop getLogs pushErr chain toBlock (start + getChunkSize chain) allLogs' t"
    obtain r2 s2 tr2 where rec: "?next = (r2, s2, tr2)"
      by (cases ?next) auto
    with "1.prems" advance have eq: "tr = tr1 @ tr2" by (simp add: chunk_loop_next)
    from retry_loop_trace [OF advance(2)] obtain pre c where
      "tr1 = pre @ [c]" "succeeded c" by auto
    then have "call_error (last tr1) = None" by (simp add: succeeded_def)
    moreover note "1.IH" [OF advance(1) refl refl advance(2) [symmetric] refl refl rec]
    moreover from retry_loop_shrinks [OF advance(2)]
    have "successively (\<lambda>c d. call_error c \<noteq> None \<longrightarrow> shrink_step c d) tr1" by simp
    ultimately show ?thesis unfolding eq
      by (simp add: successively_append_iff)
  qed
qed

lemma attempts_bound:
  assumes "48 * 2 ^ (n - 2) < (3998::int)"
  shows "n \<le> 8"
proof (rule ccontr)
  assume "\<not> n \<le> 8"
  then have "7 \<le> n - 2" by simp
  then have "(2::int) ^ 7 \<le> 2 ^ (n - 2)" by (rule power_increasing) simp
  with assms show False by simp
qed

lemma retry_loop_all_succeeded:
  assumes "retry_loop getLogs pushErr chain a b allLogs s = (r, s', tr)"
    and "\<forall>c\<in>set tr. succeeded c"
  shows "\<exists>c. tr = [c] \<and> call_from c = a \<and> call_to c = b"
proof -
  from retry_loop_trace [OF assms(1)] obtain pre c where
    t: "tr = pre @ [c]" "\<forall>d\<in>set pre. call_error d \<noteq> None" by auto
  from retry_loop_shrinks [OF assms(1)] have h: "call_from (hd tr) = a" "call_to (hd tr) = b"
    by auto
  have "pre = []"
  proof (cases pre)
    case (Cons d ds)
    with t assms(2) have "call_error d \<noteq> None" "succeeded d" by auto
    then show ?thesis by (simp add: succeeded_def)
  qed simp
  with t h show ?thesis by simp
qed

lemma chunk_loop_no_failure:
  "chunk_loop getLogs pushErr chain toBlock start allLogs s = (r, s', tr) \<Longrightarrow>
   start \<le> toBlock \<Longrightarrow> \<forall>c\<in>set tr. succeeded c \<Longrightarrow>
     int (length tr) = (toBlock - start) div getChunkSize chain + 1 \<and>
     (\<forall>c\<in>set tr. 1 \<le> call_size c \<and> call_size c \<le> getChunkSize chain) \<and>
     (\<forall>c\<in>set (butlast tr). call_size c = getChunkSize chain) \<and>
     covers start toBlock (fetched_ranges tr)"
proof (induction getLogs pushErr chain toBlock start allLogs s arbitrary: r s' tr
    rule: chunk_loop.induct)
  case (1 getLogs pushErr chain toBlock start allLogs s)
  let ?cs = "getChunkSize chain"
  let ?b = "min (start + ?cs - 1) toBlock"
  have pos: "0 < ?cs" by (rule getChunkSize_pos)
  show ?case
  proof (cases rule: chunk_loop_cases [where toBlock = toBlock and start = start
        and getLogs = getLogs and pushErr = pushErr and chain = chain and allLogs = allLogs
        and s = s])
    case finished
    with "1.prems" show ?thesis by simp
  next
    case (thrown e t tr1)
    with "1.prems" have eq: "tr = tr1" by (simp add: chunk_loop_throw)
    from retry_loop_trace [OF thrown(2)] obtain pre c where
      "tr1 = pre @ [c]" "call_error c = Some e" by auto
    with eq "1.prems"(3) show ?thesis by (simp add: succeeded_def)
  next
    case (advance allLogs' t tr1)
    let ?next = "chunk_loop getLogs pushErr chain toBlock (start + ?cs) allLogs' t"
    obtain r2 s2 tr2 where rec: "?next = (r2, s2, tr2)"
      by (cases ?next) auto
    with "1.prems" advance have eq: "tr = tr1 @ tr2" by (simp add: chunk_loop_next)
    with retry_loop_all_succeeded [OF advance(2)] "1.prems"(3)
    obtain c where tr1: "tr1 = [c]" and c: "call_from c = start" "call_to c = ?b" by auto
    have ok: "succeeded c" using eq tr1 "1.prems"(3) by simp
    have ok2: "\<forall>c\<in>set tr2. succeeded c" using eq "1.prems"(3) by simp
    show ?thesis
    proof (cases "start + ?cs \<le> toBlock")
      case True
      from "1.IH" [OF advance(1) refl refl advance(2) [symmetric] refl refl rec True ok2]
      have ih: "int (length tr2) = (toBlock - (start + ?cs)) div ?cs + 1"
        "\<forall>c\<in>set tr2. 1 \<le> call_size c \<and> call_size c \<le> ?cs"
        "\<forall>c\<in>set (butlast tr2). call_size c = ?cs"
        "covers (start + ?cs) toBlock (fetched_ranges tr2)"
        by simp_all
      from True have b: "?b = start + ?cs - 1" by simp
      have "(toBlock - start) div ?cs = (toBlock - (start + ?cs)) div ?cs + 1"
      proof -
        have "toBlock - start = (toBlock - (start + ?cs)) + ?cs" by simp
        then show ?thesis using pos by (metis div_add_self2 less_irrefl)
      qed
      with ih(1) have len: "int (length tr) = (toBlock - start) div ?cs + 1"
        by (simp add: eq tr1)
      have "0 \<le> (toBlock - (start + ?cs)) div ?cs"
        using True pos by (simp add: pos_imp_zdiv_nonneg_iff)
      with ih(1) have ne: "tr2 \<noteq> []" by auto
      have sizes: "\<forall>c\<in>set tr. 1 \<le> call_size c \<and> call_size c \<le> ?cs"
        using ih(2) pos c by (auto simp: eq tr1 b call_size_def)
      have full: "\<forall>c\<in>set (butlast tr). call_size c = ?cs"
        using ih(3) ne c by (auto simp: eq tr1 b call_size_def butlast_append)
      have cov: "covers start toBlock (fetched_ranges tr)"
        using ih(4) pos c ok by (simp add: eq tr1 b fetched_ranges_def)
      from len sizes full cov show ?thesis by simp
    next
      case False
      with rec have tr2: "tr2 = []" by (simp add: chunk_loop_done)
      from False have b: "?b = toBlock" by simp
      have "(toBlock - start) div ?cs = 0"
        using False advance(1) by (intro div_pos_pos_trivial) simp_all
      then show ?thesis using False advance(1) c ok
        by (simp add: eq tr1 tr2 b call_size_def fetched_ranges_def)
    qed
  qed
qed

lemma ceiling_chunks:
  assumes "0 < (c::int)"
  shows "\<lceil>real_of_int (y + 1) / real_of_int c\<rceil> = y div c + 1"
proof (rule ceiling_eq)
  have m: "0 \<le> y mod c" "y mod c < c" using assms by simp_all
  have y: "y div c * c + y mod c = y" by simp
  have "y div c * c < y + 1" using m y by linarith
  then have "real_of_int (y div c * c) < real_of_int (y + 1)" by (simp only: of_int_less_iff)
  then show "of_int (y div c) < real_of_int (y + 1) / real_of_int c"
    using assms by (simp add: pos_less_divide_eq)
  have "y + 1 \<le> y div c * c + c" using m y by linarith
  then have "real_of_int (y + 1) \<le> real_of_int (y div c * c + c)" by (simp only: of_int_le_iff)
  then show "real_of_int (y + 1) / real_of_int c \<le> of_int (y div c) + 1"
    using assms by (simp add: pos_divide_le_eq algebra_simps)
qed

lemma failed_fetched_nothing:
  "\<forall>c\<in>set pre. fetched c = [] \<Longrightarrow> concat (map fetched pre) = []"
  by (induction pre) auto

lemma failed_not_succeeded:
  "\<forall>c\<in>set pre. call_error c \<noteq> None \<Longrightarrow> filter succeeded pre = []"
  by (induction pre) (auto simp: succeeded_def)

lemma chunk_loop_logs:
  "chunk_loop getLogs pushErr chain toBlock start allLogs s = (Inr logs, s', tr) \<Longrightarrow>
     logs = allLogs @ concat (map fetched tr)"
proof (induction getLogs pushErr chain toBlock start allLogs s arbitrary: s' tr
    rule: chunk_loop.induct)
  case (1 getLogs pushErr chain toBlock start allLogs s)
  show ?case
  proof (cases rule: chunk_loop_cases [where toBlock = toBlock and start = start
        and getLogs = getLogs and pushErr = pushErr and chain = chain and allLogs = allLogs
        and s = s])
    case finished
    with "1.prems" show ?thesis by (auto simp: chunk_loop_done)
  next
    case (thrown e t tr1)
    with "1.prems" show ?thesis by (simp add: chunk_loop_throw)
  next
    case (advance allLogs' t tr1)
    let ?next = "chunk_loop getLogs pushErr chain toBlock (start + getChunkSize chain) allLogs' t"
    obtain r2 s2 tr2 where rec: "?next = (r2, s2, tr2)"
      by (cases ?next) auto
    with "1.prems" advance have eq: "r2 = Inr logs" "tr = tr1 @ tr2"
      by (simp_all add: chunk_loop_next)
    from retry_loop_trace [OF advance(2)] obtain pre c where
      t: "tr1 = pre @ [c]" "allLogs' = allLogs @ fetched c" "\<forall>d\<in>set pre. fetched d = []"
      by auto
    have "concat (map fetched tr1) = fetched c"
      using failed_fetched_nothing [OF t(3)] by (simp add: t(1))
    moreover from "1.IH" [OF advance(1) refl refl advance(2) [symmetric] refl refl
        rec [unfolded eq(1)]]
    have "logs = allLogs' @ concat (map fetched tr2)" .
    ultimately show ?thesis by (simp add: eq t(2))
  qed
qed

lemma chunk_loop_answers:
  "chunk_loop getLogs pushErr chain toBlock start allLogs s = (r, s', tr) \<Longrightarrow>
     \<forall>c\<in>set tr. \<exists>t. fst (getLogs chain (call_from c) (call_to c) t) = call_result c"
proof (induction getLogs pushErr chain toBlock start allLogs s arbitrary: r s' tr
    rule: chunk_loop.induct)
  case (1 getLogs pushErr chain toBlock start allLogs s)
  show ?case
  proof (cases rule: chunk_loop_cases [where toBlock = toBlock and start = start
        and getLogs = getLogs and pushErr = pushErr and chain = chain and allLogs = allLogs
        and s = s])
    case finished
    with "1.prems" show ?thesis by (auto simp: chunk_loop_done)
  next
    case (thrown e t tr1)
    with "1.prems" have "tr = tr1" by (simp add: chunk_loop_throw)
    with retry_loop_answers [OF thrown(2)] show ?thesis by simp
  next
    case (advance allLogs' t tr1)
    let ?next = "chunk_loop getLogs pushErr chain toBlock (start + getChunkSize chain) allLogs' t"
    obtain r2 s2 tr2 where rec: "?next = (r2, s2, tr2)"
      by (cases ?next) auto
    with "1.prems" advance have eq: "tr = tr1 @ tr2" by (simp add: chunk_loop_next)
    from "1.IH" [OF advance(1) refl refl advance(2) [symmetric] refl refl rec]
      retry_loop_answers [OF advance(2)]
    show ?thesis unfolding eq by auto
  qed
qed

lemma chunk_loop_order:
  "chunk_loop getLogs pushErr chain toBlock start allLogs s = (r, s', tr) \<Longrightarrow>
     sorted (map call_from tr) \<and>
     (\<forall>c\<in>set tr. start \<le> call_from c \<and> call_from c \<le> call_to c \<and> call_to c \<le> toBlock) \<and>
     sorted_wrt (\<lambda>c d. call_to c < call_from d) (filter succeeded tr)"
proof (induction getLogs pushErr chain toBlock start allLogs s arbitrary: r s' tr
    rule: chunk_loop.induct)
  case (1 getLogs pushErr chain toBlock start allLogs s)
  let ?cs = "getChunkSize chain"
  let ?b = "min (start + ?cs - 1) toBlock"
  have pos: "0 < ?cs" by (rule getChunkSize_pos)
  have retry: "sorted (map call_from tr1) \<and>
     (\<forall>c\<in>set tr1. call_from c = start \<and> call_from c \<le> call_to c \<and> call_to c \<le> ?b) \<and>
     sorted_wrt (\<lambda>c d. call_to c < call_from d) (filter succeeded tr1)"
    if le: "start \<le> toBlock"
      and run: "retry_loop getLogs pushErr chain start ?b allLogs s = (r1, t, tr1)"
    for r1 t tr1
  proof -
    from retry_loop_trace [OF run] le pos obtain pre c where
      t: "tr1 = pre @ [c]" "call_from c = start" "call_to c \<le> ?b" "start \<le> call_to c"
         "\<forall>d\<in>set pre. call_error d \<noteq> None \<and> 50 < call_size d \<and> call_from d = start \<and>
            call_to d \<le> ?b"
      by auto
    have same: "\<forall>c\<in>set tr1. call_from c = start \<and> call_from c \<le> call_to c \<and> call_to c \<le> ?b"
      using t by (auto simp: call_size_def)
    then have "map call_from tr1 = replicate (length tr1) start"
      by (auto simp: map_replicate_const [symmetric] intro: map_cong)
    then have s1: "sorted (map call_from tr1)" by (simp add: sorted_replicate)
    have "filter succeeded pre = []" using t(5) by (intro failed_not_succeeded) simp
    then have s2: "sorted_wrt (\<lambda>c d. call_to c < call_from d) (filter succeeded tr1)"
      by (simp add: t(1))
    from s1 same s2 show ?thesis by blast
  qed
  show ?case
  proof (cases rule: chunk_loop_cases [where toBlock = toBlock and start = start
        and getLogs = getLogs and pushErr = pushErr and chain = chain and allLogs = allLogs
        and s = s])
    case finished
    with "1.prems" show ?thesis by (auto simp: chunk_loop_done)
  next
    case (thrown e t tr1)
    with "1.prems" have eq: "tr = tr1" by (simp add: chunk_loop_throw)
    have "\<forall>c\<in>set tr1. start \<le> call_from c \<and> call_from c \<le> call_to c \<and> call_to c \<le> toBlock"
    proof
      fix c assume "c \<in> set tr1"
      with retry [OF thrown] have "call_from c = start" "call_from c \<le> call_to c" "call_to c \<le> ?b"
        by blast+
      then show "start \<le> call_from c \<and> call_from c \<le> call_to c \<and> call_to c \<le> toBlock" by simp
    qed
    with retry [OF thrown] show ?thesis by (simp add: eq)
  next
    case (advance allLogs' t tr1)
    let ?next = "chunk_loop getLogs pushErr chain toBlock (start + ?cs) allLogs' t"
    obtain r2 s2 tr2 where rec: "?next = (r2, s2, tr2)"
      by (cases ?next) auto
    with "1.prems" advance have eq: "tr = tr1 @ tr2" by (simp add: chunk_loop_next)
    note ih = "1.IH" [OF advance(1) refl refl advance(2) [symmetric] refl refl rec]
    note r1 = retry [OF advance]
    have cross: "\<forall>c\<in>set tr1. \<forall>d\<in>set tr2. call_from c \<le> call_from d \<and> call_to c < call_from d"
      using ih r1 pos by fastforce
    have "sorted (map call_from tr)"
      using ih r1 cross by (simp add: eq sorted_append)
    moreover have "\<forall>c\<in>set tr. start \<le> call_from c \<and> call_from c \<le> call_to c \<and> call_to c \<le> toBlock"
      using ih r1 pos by (fastforce simp: eq)
    moreover have "sorted_wrt (\<lambda>c d. call_to c < call_from d) (filter succeeded tr)"
      using ih r1 cross by (simp add: eq sorted_wrt_append)
    ultimately show ?thesis by simp
  qed
qed

lemma inflow_block_numbers:
  "map blockNumber' (inflow_events lib logs) =
     map blockNumber (filter (\<lambda>l. case parseLog lib l of None \<Rightarrow> False
                                    | Some parsed \<Rightarrow> isDestinationENI lib (extData parsed)) logs)"
  by (induction logs) (auto split: option.splits)

lemma outflow_block_numbers:
  "map blockNumber' (outflow_events lib logs) =
     map blockNumber (filter (\<lambda>l. case parseLog lib l of None \<Rightarrow> False
                                    | Some parsed \<Rightarrow> \<not> isDestinationENI lib (extData parsed)) logs)"
  by (induction logs) (auto split: option.splits)

lemma fetched_succeeded: "x \<in> set (fetched c) \<Longrightarrow> succeeded c"
  by (cases "call_result c"; cases "append_error c")
     (simp_all add: fetched_def succeeded_def call_error_def)

lemma sorted_fetched:
  fixes bn :: "'l \<Rightarrow> int"
  assumes "sorted_wrt (\<lambda>c d. call_to c < call_from d) (filter succeeded tr)"
    and "\<forall>c\<in>set tr. sorted (map bn (fetched c)) \<and>
           (\<forall>l\<in>set (fetched c). call_from c \<le> bn l \<and> bn l \<le> call_to c)"
  shows "sorted (map bn (concat (map fetched (tr :: ('e, 'l) fetch_call list))))"
  using assms
proof (induction tr)
  case Nil
  then show ?case by simp
next
  case (Cons c tr)
  have rest: "sorted (map bn (concat (map fetched tr)))"
    using Cons by (auto split: if_splits)
  have "bn x \<le> bn y" if x: "x \<in> set (fetched c)" and y: "y \<in> set (concat (map fetched tr))" for x y
  proof -
    from y obtain d where d: "d \<in> set tr" "y \<in> set (fetched d)" by auto
    from x have "succeeded c" by (rule fetched_succeeded)
    moreover from d(2) have "succeeded d" by (rule fetched_succeeded)
    ultimately have "call_to c < call_from d" using Cons.prems(1) d(1) by auto
    moreover have "bn x \<le> call_to c" using Cons.prems(2) x by simp
    moreover have "call_from d \<le> bn y" using Cons.prems(2) d by simp
    ultimately show ?thesis by linarith
  qed
  then have "\<forall>x\<in>set (map bn (fetched c)). \<forall>y\<in>set (map bn (concat (map fetched tr))). x \<le> y"
    by auto
  with rest Cons.prems(2) show ?case by (simp add: sorted_append del: set_map set_concat)
qed

section \<open>When the scan fails\<close>

text \<open>
  C3, as the code has it. The \<open>try\<close> holds the fetch and the push, so a scan throws if
  and only if one of its attempts, a rejected fetch or a push that throws, fails on a
  range of at most 50 blocks. The error thrown is the error of that attempt, the attempt
  is the last one of the scan (nothing is retried after it), and no earlier attempt is a
  terminal failure.
\<close>

theorem scan_throws_iff:
  fixes getLogs :: "('s, 'e, 'l) log_source"
  assumes "getLogsSafe getLogs pushErr chain fromBlock toBlock s = (r, s', tr)"
  shows "(isl r \<longleftrightarrow> (\<exists>c\<in>set tr. terminal_failure c)) \<and>
         (\<forall>e. r = Inl e \<longrightarrow>
            (\<exists>pre c. tr = pre @ [c] \<and> call_error c = Some e \<and> call_size c \<le> 50 \<and>
               (\<forall>d\<in>set pre. \<not> terminal_failure d)))"
proof (cases r)
  case (Inl e)
  with chunk_loop_failure [OF assms [unfolded getLogsSafe_def]] obtain pre c where
    h: "tr = pre @ [c]" "call_error c = Some e" "call_size c \<le> 50"
       "\<forall>d\<in>set pre. \<not> terminal_failure d"
    by auto
  then have "terminal_failure c" by (simp add: terminal_failure_def)
  with h Inl show ?thesis by auto
next
  case (Inr logs)
  with chunk_loop_failure [OF assms [unfolded getLogsSafe_def]] show ?thesis by auto
qed

theorem scan_throws_iff_witness:
  "getLogsSafe (node 0 []) push_never_throws ''bsc'' 0 99 0 =
     (Inl ''query exceeds limit'', 3,
      [Fetch 0 99 (Inl ''query exceeds limit'') None,
       Fetch 0 50 (Inl ''query exceeds limit'') None,
       Fetch 0 25 (Inl ''query exceeds limit'') None]) \<and>
   call_error (Fetch 0 25 (Inl ''query exceeds limit'') None :: (string, log) fetch_call) =
     Some ''query exceeds limit'' \<and>
   terminal_failure (Fetch 0 25 (Inl ''query exceeds limit'') None :: (string, log) fetch_call) \<and>
   \<not> terminal_failure (Fetch 0 50 (Inl ''query exceeds limit'') None :: (string, log) fetch_call)"
proof -
  have run: "getLogsSafe (node 0 []) push_never_throws ''bsc'' 0 99 0 =
     (Inl ''query exceeds limit'', 3,
      [Fetch 0 99 (Inl ''query exceeds limit'') None,
       Fetch 0 50 (Inl ''query exceeds limit'') None,
       Fetch 0 25 (Inl ''query exceeds limit'') None])"
    by code_simp
  from scan_throws_iff [OF run] show ?thesis using run by auto
qed

text \<open>
  The claim C3 as stated fails: with a log source that rejects nothing and a runtime
  whose push throws on more than one entry, the scan of \<open>[0, 99]\<close> on bsc throws the
  \<open>RangeError\<close> of the push, and none of its three fetch calls failed.
\<close>

theorem scan_throws_iff_counterexample:
  "getLogsSafe (node 5000 [example_log 3 ''c=173'', example_log 7 ''c=56'']) (spread_limit 1)
       ''bsc'' 0 99 0 =
     (Inl ''RangeError'', 3,
      [Fetch 0 99 (Inr [example_log 3 ''c=173'', example_log 7 ''c=56'']) (Some ''RangeError''),
       Fetch 0 50 (Inr [example_log 3 ''c=173'', example_log 7 ''c=56'']) (Some ''RangeError''),
       Fetch 0 25 (Inr [example_log 3 ''c=173'', example_log 7 ''c=56'']) (Some ''RangeError'')]) \<and>
   list_all resolved
      [Fetch 0 99 (Inr [example_log 3 ''c=173'', example_log 7 ''c=56'']) (Some ''RangeError''),
       Fetch 0 50 (Inr [example_log 3 ''c=173'', example_log 7 ''c=56'']) (Some ''RangeError''),
       Fetch 0 25 (Inr [example_log 3 ''c=173'', example_log 7 ''c=56'']) (Some ''RangeError'')]"
  by code_simp

section \<open>Termination of the shrink-and-retry loop\<close>

text \<open>
  C4. Both loops are total functions: the retry loop terminates because a failed attempt
  on more than 50 blocks is followed by a call from the same start on strictly fewer
  blocks, the end being \<open>start + floor(range / 2)\<close>. When every fetch call of a scan of a
  non-empty range fails, the scan ends by throwing the error of its last call, which is on
  at most 50 blocks, after at most 8 calls.
\<close>

theorem shrink_retry_terminates:
  fixes getLogs :: "('s, 'e, 'l) log_source"
  assumes "getLogsSafe getLogs pushErr chain fromBlock toBlock s = (r, s', tr)"
  shows "successively (\<lambda>c d. call_error c \<noteq> None \<longrightarrow> shrink_step c d) tr \<and>
         (fromBlock \<le> toBlock \<and> (\<forall>c\<in>set tr. isl (call_result c)) \<longrightarrow>
            isl r \<and> tr \<noteq> [] \<and> terminal_failure (last tr) \<and> call_result (last tr) = r \<and>
            length tr \<le> 8)"
proof (intro conjI impI)
  note run = assms [unfolded getLogsSafe_def]
  show "successively (\<lambda>c d. call_error c \<noteq> None \<longrightarrow> shrink_step c d) tr"
    by (rule chunk_loop_shrinks [OF run])
  assume h: "fromBlock \<le> toBlock \<and> (\<forall>c\<in>set tr. isl (call_result c))"
  have "isl r \<and> tr \<noteq> [] \<and> terminal_failure (last tr) \<and> call_result (last tr) = r \<and> length tr \<le> 8"
  proof (cases rule: chunk_loop_cases [where toBlock = toBlock and start = fromBlock
        and getLogs = getLogs and pushErr = pushErr and chain = chain and allLogs = "[]"
        and s = s])
    case finished
    with h show ?thesis by simp
  next
    case (thrown e t tr1)
    with run have eq: "r = Inl e" "tr = tr1" by (simp_all add: chunk_loop_throw)
    from retry_loop_trace [OF thrown(2)] obtain pre c where
      t: "tr1 = pre @ [c]" "call_error c = Some e" "call_size c \<le> 50"
      by auto
    from t(1) eq h have "isl (call_result c)" by simp
    with t(2) have res: "call_result c = Inl e"
      by (cases "call_result c") (simp_all add: call_error_def)
    have len: "length tr1 \<le> 8"
    proof (cases "1 < length tr1")
      case True
      from retry_loop_attempts [OF thrown(2) True] getChunkSize_le [of chain]
      have "48 * 2 ^ (length tr1 - 2) < (3998::int)" by simp
      then show ?thesis by (rule attempts_bound)
    next
      case False
      then show ?thesis by simp
    qed
    from t eq len res show ?thesis
      by (simp add: terminal_failure_def)
  next
    case (advance allLogs' t tr1)
    let ?next = "chunk_loop getLogs pushErr chain toBlock (fromBlock + getChunkSize chain) allLogs' t"
    obtain r2 s2 tr2 where rec: "?next = (r2, s2, tr2)"
      by (cases ?next) auto
    with run advance have eq: "tr = tr1 @ tr2" by (simp add: chunk_loop_next)
    from retry_loop_trace [OF advance(2)] obtain pre c where
      c: "tr1 = pre @ [c]" "succeeded c" by auto
    with eq h have "isl (call_result c)" by simp
    with c(2) show ?thesis
      by (cases "call_result c") (simp_all add: succeeded_def call_error_def)
  qed
  then show "isl r" "tr \<noteq> []" "terminal_failure (last tr)" "call_result (last tr) = r" "length tr \<le> 8"
    by simp_all
qed

theorem shrink_retry_terminates_witness:
  "getLogsSafe (node 0 []) push_never_throws ''arbitrum'' 0 9999 0 =
     (Inl ''query exceeds limit'', 8,
      [Fetch 0 3999 (Inl ''query exceeds limit'') None,
       Fetch 0 2000 (Inl ''query exceeds limit'') None,
       Fetch 0 1000 (Inl ''query exceeds limit'') None,
       Fetch 0 500 (Inl ''query exceeds limit'') None,
       Fetch 0 250 (Inl ''query exceeds limit'') None,
       Fetch 0 125 (Inl ''query exceeds limit'') None,
       Fetch 0 63 (Inl ''query exceeds limit'') None,
       Fetch 0 32 (Inl ''query exceeds limit'') None]) \<and>
   (0::int) \<le> 9999 \<and>
   list_all (\<lambda>c. isl (call_result c))
     [Fetch 0 3999 (Inl ''query exceeds limit'') None,
       Fetch 0 2000 (Inl ''query exceeds limit'') None,
       Fetch 0 1000 (Inl ''query exceeds limit'') None,
       Fetch 0 500 (Inl ''query exceeds limit'') None,
       Fetch 0 250 (Inl ''query exceeds limit'') None,
       Fetch 0 125 (Inl ''query exceeds limit'') None,
       Fetch 0 63 (Inl ''query exceeds limit'') None,
       Fetch 0 32 (Inl ''query exceeds limit'') None :: (string, log) fetch_call] \<and>
   successively (\<lambda>c d. call_error c \<noteq> None \<longrightarrow> shrink_step c d)
     [Fetch 0 3999 (Inl ''query exceeds limit'') None,
       Fetch 0 2000 (Inl ''query exceeds limit'') None,
       Fetch 0 1000 (Inl ''query exceeds limit'') None,
       Fetch 0 500 (Inl ''query exceeds limit'') None,
       Fetch 0 250 (Inl ''query exceeds limit'') None,
       Fetch 0 125 (Inl ''query exceeds limit'') None,
       Fetch 0 63 (Inl ''query exceeds limit'') None,
       Fetch 0 32 (Inl ''query exceeds limit'') None :: (string, log) fetch_call] \<and>
   terminal_failure (Fetch 0 32 (Inl ''query exceeds limit'') None :: (string, log) fetch_call)"
proof -
  have run: "getLogsSafe (node 0 []) push_never_throws ''arbitrum'' 0 9999 0 =
     (Inl ''query exceeds limit'', 8,
      [Fetch 0 3999 (Inl ''query exceeds limit'') None,
       Fetch 0 2000 (Inl ''query exceeds limit'') None,
       Fetch 0 1000 (Inl ''query exceeds limit'') None,
       Fetch 0 500 (Inl ''query exceeds limit'') None,
       Fetch 0 250 (Inl ''query exceeds limit'') None,
       Fetch 0 125 (Inl ''query exceeds limit'') None,
       Fetch 0 63 (Inl ''query exceeds limit'') None,
       Fetch 0 32 (Inl ''query exceeds limit'') None])"
    by code_simp
  from shrink_retry_terminates [OF run] run show ?thesis by simp
qed

section \<open>Chunk sizes and the number of fetch calls\<close>

text \<open>
  C8, as the code has it. The chunk size is 400 for bsc, 1500 for polygon, 4000 for
  arbitrum, optimism and base, and 3000 for ethereum and every other network. A scan of a
  non-empty range in which no attempt fails, no fetch being rejected and no push throwing,
  issues \<open>ceil((toBlock - fromBlock + 1) / chunkSize)\<close> calls, each on at least one and at
  most \<open>chunkSize\<close> blocks, every call but the last on exactly \<open>chunkSize\<close> blocks, and
  the calls cover the range exactly.
\<close>

theorem chunk_size_and_fetch_count:
  fixes getLogs :: "('s, 'e, 'l) log_source"
  assumes "getLogsSafe getLogs pushErr chain fromBlock toBlock s = (r, s', tr)"
    and "fromBlock \<le> toBlock"
    and "\<forall>c\<in>set tr. succeeded c"
  shows "getChunkSize ''bsc'' = 400 \<and> getChunkSize ''polygon'' = 1500 \<and>
         getChunkSize ''arbitrum'' = 4000 \<and> getChunkSize ''optimism'' = 4000 \<and>
         getChunkSize ''base'' = 4000 \<and> getChunkSize ''ethereum'' = 3000 \<and>
         (chain \<notin> {''bsc'', ''polygon'', ''arbitrum'', ''optimism'', ''base''} \<longrightarrow>
            getChunkSize chain = 3000) \<and>
         int (length tr) =
           \<lceil>real_of_int (toBlock - fromBlock + 1) / real_of_int (getChunkSize chain)\<rceil> \<and>
         (\<forall>c\<in>set tr. 1 \<le> call_size c \<and> call_size c \<le> getChunkSize chain) \<and>
         (\<forall>c\<in>set (butlast tr). call_size c = getChunkSize chain) \<and>
         covers fromBlock toBlock (fetched_ranges tr)"
proof -
  have table: "getChunkSize ''bsc'' = 400 \<and> getChunkSize ''polygon'' = 1500 \<and>
         getChunkSize ''arbitrum'' = 4000 \<and> getChunkSize ''optimism'' = 4000 \<and>
         getChunkSize ''base'' = 4000 \<and> getChunkSize ''ethereum'' = 3000 \<and>
         (chain \<notin> {''bsc'', ''polygon'', ''arbitrum'', ''optimism'', ''base''} \<longrightarrow>
            getChunkSize chain = 3000)"
    by (simp add: getChunkSize_def)
  note scan = chunk_loop_no_failure [OF assms(1) [unfolded getLogsSafe_def] assms(2,3)]
  have "toBlock - fromBlock + 1 = (toBlock - fromBlock) + 1" by simp
  with ceiling_chunks [OF getChunkSize_pos, of "toBlock - fromBlock" chain] scan
  have "int (length tr) =
      \<lceil>real_of_int (toBlock - fromBlock + 1) / real_of_int (getChunkSize chain)\<rceil>"
    by simp
  with table scan show ?thesis by simp
qed

theorem chunk_size_and_fetch_count_witness:
  "getLogsSafe (node 5000 []) push_never_throws ''ethereum'' 0 6999 0 =
     (Inr [], 3,
      [Fetch 0 2999 (Inr []) None, Fetch 3000 5999 (Inr []) None, Fetch 6000 6999 (Inr []) None]) \<and>
   (0::int) \<le> 6999 \<and>
   list_all succeeded
     [Fetch 0 2999 (Inr []) None, Fetch 3000 5999 (Inr []) None, Fetch 6000 6999 (Inr []) None
       :: (string, log) fetch_call] \<and>
   int (length
     [Fetch 0 2999 (Inr []) None, Fetch 3000 5999 (Inr []) None, Fetch 6000 6999 (Inr []) None
       :: (string, log) fetch_call]) =
     \<lceil>real_of_int (6999 - 0 + 1) / real_of_int (getChunkSize ''ethereum'')\<rceil> \<and>
   covers 0 6999 (fetched_ranges
     [Fetch 0 2999 (Inr []) None, Fetch 3000 5999 (Inr []) None, Fetch 6000 6999 (Inr []) None
       :: (string, log) fetch_call])"
proof -
  let ?tr = "[Fetch 0 2999 (Inr []) None, Fetch 3000 5999 (Inr []) None,
      Fetch 6000 6999 (Inr []) None] :: (string, log) fetch_call list"
  have run: "getLogsSafe (node 5000 []) push_never_throws ''ethereum'' 0 6999 0 =
     (Inr [], 3, ?tr)"
    by code_simp
  have ok: "\<forall>c\<in>set ?tr. succeeded c"
    by (simp add: succeeded_def call_error_def)
  have le: "(0::int) \<le> 6999" by simp
  from chunk_size_and_fetch_count [OF run le ok] run ok show ?thesis
    by (simp add: list_all_iff)
qed

text \<open>
  The claim C8 as stated fails: no fetch call of this scan of \<open>[0, 99]\<close> on bsc fails,
  the ceiling is 1, and the scan issues 2 calls, because the push of the first answer
  throws and the chunk is shrunk and fetched again.
\<close>

theorem chunk_size_and_fetch_count_counterexample:
  "getLogsSafe (node 5000 [example_log 3 ''c=173'', example_log 80 ''c=56'']) (spread_limit 1)
       ''bsc'' 0 99 0 =
     (Inr [example_log 3 ''c=173''], 2,
      [Fetch 0 99 (Inr [example_log 3 ''c=173'', example_log 80 ''c=56'']) (Some ''RangeError''),
       Fetch 0 50 (Inr [example_log 3 ''c=173'']) None]) \<and>
   list_all resolved
      [Fetch 0 99 (Inr [example_log 3 ''c=173'', example_log 80 ''c=56'']) (Some ''RangeError''),
       Fetch 0 50 (Inr [example_log 3 ''c=173'']) None] \<and>
   length
      [Fetch 0 99 (Inr [example_log 3 ''c=173'', example_log 80 ''c=56'']) (Some ''RangeError''),
       Fetch 0 50 (Inr [example_log 3 ''c=173'']) None] = 2 \<and>
   \<lceil>real_of_int (99 - 0 + 1) / real_of_int (getChunkSize ''bsc'')\<rceil> = 1"
proof -
  have "\<lceil>real_of_int (99 - 0 + 1) / real_of_int (getChunkSize ''bsc'')\<rceil> = 1"
    by (simp add: getChunkSize_def ceiling_eq_iff)
  moreover have "getLogsSafe (node 5000 [example_log 3 ''c=173'', example_log 80 ''c=56''])
       (spread_limit 1) ''bsc'' 0 99 0 =
     (Inr [example_log 3 ''c=173''], 2,
      [Fetch 0 99 (Inr [example_log 3 ''c=173'', example_log 80 ''c=56'']) (Some ''RangeError''),
       Fetch 0 50 (Inr [example_log 3 ''c=173'']) None])"
    by code_simp
  ultimately show ?thesis by (simp add: resolved_def)
qed

lemmas classifier_eval =
  getDestinationChainId_def isDestinationENI_def match_c_def Number_def nearest_double_def
  is_digit_def example_lib_def example_log_def Let_def

section \<open>Order of the scan\<close>

text \<open>
  C9. The fetch calls of a scan are issued in ascending order of their start block, and
  each sub-range whose entries were appended lies wholly before every later one. A
  successful scan returns the entries it appended, in the order of the calls. Hence, when
  each appended answer is sorted by block number and holds only entries of the range that
  was asked for, the returned log entries are sorted by block number, and so are the
  records either adapter derives from them.
\<close>

theorem scan_in_block_order:
  fixes getLogs :: "('s, 'e, log) log_source"
  assumes "getLogsSafe getLogs pushErr chain fromBlock toBlock s = (Inr logs, s', tr)"
    and "\<forall>c\<in>set tr. sorted (map blockNumber (fetched c)) \<and>
           (\<forall>l\<in>set (fetched c). call_from c \<le> blockNumber l \<and> blockNumber l \<le> call_to c)"
  shows "sorted (map call_from tr) \<and>
         sorted_wrt (\<lambda>c d. call_to c < call_from d) (filter succeeded tr) \<and>
         logs = concat (map fetched tr) \<and>
         sorted (map blockNumber logs) \<and>
         sorted (map blockNumber' (inflow_events lib logs)) \<and>
         sorted (map blockNumber' (outflow_events lib logs))"
proof -
  note run = assms(1) [unfolded getLogsSafe_def]
  from chunk_loop_order [OF run] have
    order: "sorted (map call_from tr)"
      "sorted_wrt (\<lambda>c d. call_to c < call_from d) (filter succeeded tr)"
    by simp_all
  from chunk_loop_logs [OF run] have logs: "logs = concat (map fetched tr)" by simp
  from sorted_fetched [OF order(2) assms(2)] logs have s: "sorted (map blockNumber logs)" by simp
  then have "sorted (map blockNumber' (inflow_events lib logs))"
    "sorted (map blockNumber' (outflow_events lib logs))"
    by (simp_all add: inflow_block_numbers outflow_block_numbers sorted_filter)
  with order logs s show ?thesis by simp
qed

theorem scan_in_block_order_witness:
  "getLogsSafe (node 250 example_chain) (spread_limit 1) ''bsc'' 0 999 0 =
     (Inr [example_log 10 ''c=173'', example_log 450 ''r=1&c=173'', example_log 900 ''xyz''], 6,
      [Fetch 0 399 (Inl ''query exceeds limit'') None,
       Fetch 0 200 (Inr [example_log 10 ''c=173'', example_log 150 ''c=56''])
         (Some ''RangeError''),
       Fetch 0 100 (Inr [example_log 10 ''c=173'']) None,
       Fetch 400 799 (Inl ''query exceeds limit'') None,
       Fetch 400 600 (Inr [example_log 450 ''r=1&c=173'']) None,
       Fetch 800 999 (Inr [example_log 900 ''xyz'']) None]) \<and>
   concat (map fetched
      [Fetch 0 399 (Inl ''query exceeds limit'') None,
       Fetch 0 200 (Inr [example_log 10 ''c=173'', example_log 150 ''c=56''])
         (Some ''RangeError''),
       Fetch 0 100 (Inr [example_log 10 ''c=173'']) None,
       Fetch 400 799 (Inl ''query exceeds limit'') None,
       Fetch 400 600 (Inr [example_log 450 ''r=1&c=173'']) None,
       Fetch 800 999 (Inr [example_log 900 ''xyz'']) None]) =
     [example_log 10 ''c=173'', example_log 450 ''r=1&c=173'', example_log 900 ''xyz''] \<and>
   sorted (map blockNumber
     [example_log 10 ''c=173'', example_log 450 ''r=1&c=173'', example_log 900 ''xyz'']) \<and>
   map blockNumber' (inflow_events example_lib
     [example_log 10 ''c=173'', example_log 450 ''r=1&c=173'', example_log 900 ''xyz'']) =
     [10, 450] \<and>
   sorted (map blockNumber' (inflow_events example_lib
     [example_log 10 ''c=173'', example_log 450 ''r=1&c=173'', example_log 900 ''xyz''])) \<and>
   map blockNumber' (outflow_events example_lib
     [example_log 10 ''c=173'', example_log 450 ''r=1&c=173'', example_log 900 ''xyz'']) =
     [900] \<and>
   sorted (map blockNumber' (outflow_events example_lib
     [example_log 10 ''c=173'', example_log 450 ''r=1&c=173'', example_log 900 ''xyz'']))"
proof -
  let ?logs = "[example_log 10 ''c=173'', example_log 450 ''r=1&c=173'', example_log 900 ''xyz'']"
  let ?tr = "[Fetch 0 399 (Inl ''query exceeds limit'') None,
       Fetch 0 200 (Inr [example_log 10 ''c=173'', example_log 150 ''c=56''])
         (Some ''RangeError''),
       Fetch 0 100 (Inr [example_log 10 ''c=173'']) None,
       Fetch 400 799 (Inl ''query exceeds limit'') None,
       Fetch 400 600 (Inr [example_log 450 ''r=1&c=173'']) None,
       Fetch 800 999 (Inr [example_log 900 ''xyz'']) None] :: (string, log) fetch_call list"
  have run: "getLogsSafe (node 250 example_chain) (spread_limit 1) ''bsc'' 0 999 0 =
      (Inr ?logs, 6, ?tr)"
    by code_simp
  have src: "\<forall>c\<in>set ?tr. sorted (map blockNumber (fetched c)) \<and>
           (\<forall>l\<in>set (fetched c). call_from c \<le> blockNumber l \<and> blockNumber l \<le> call_to c)"
    by (simp add: fetched_def example_log_def)
  have inflow: "map blockNumber' (inflow_events example_lib ?logs) = [10, 450]"
    by (simp add: classifier_eval)
  have outflow: "map blockNumber' (outflow_events example_lib ?logs) = [900]"
    by (simp add: classifier_eval)
  note res = scan_in_block_order [OF run src, of example_lib]
  from res have cat: "concat (map fetched ?tr) = ?logs" by (elim conjE) (rule sym)
  from res have s1: "sorted (map blockNumber ?logs)" by (elim conjE)
  from res have s2: "sorted (map blockNumber' (inflow_events example_lib ?logs))"
    by (elim conjE)
  from res have s3: "sorted (map blockNumber' (outflow_events example_lib ?logs))"
    by (elim conjE)
  from run cat s1 inflow s2 outflow s3 show ?thesis by blast
qed

section \<open>Coverage of the range after a shrink\<close>

text \<open>
  C1. The outer loop advances by \<open>start += chunkSize\<close> whatever the inner loop has done to
  \<open>end\<close>. On bsc (chunks of 400 blocks), with a log source that rejects queries of more
  than 250 blocks, the scan of \<open>[0, 399]\<close> fails on \<open>[0, 399]\<close>, fetches \<open>[0, 200]\<close>,
  and returns: blocks 201 to 399 are never asked for, and the log of block 300 is lost.
\<close>

theorem getLogsSafe_skips_after_shrink:
  "getLogsSafe (node 250 [example_log 300 ''c=173'']) push_never_throws ''bsc'' 0 399 0 =
     (Inr [], 2, [Fetch 0 399 (Inl ''query exceeds limit'') None, Fetch 0 200 (Inr []) None]) \<and>
   fetched_ranges [Fetch 0 399 (Inl ''query exceeds limit'') None, Fetch 0 200 (Inr []) None
                   :: (string, log) fetch_call] = [(0, 200)] \<and>
   \<not> covers 0 399 [(0, 200)]"
  by code_simp

section \<open>Empty ranges\<close>

text \<open>
  C10. When \<open>fromBlock > toBlock\<close> the loop condition \<open>start <= toBlock\<close> fails at once:
  the scanner and both adapters return the empty sequence, issue no fetch call, leave the
  log source as it was, and raise nothing.
\<close>

theorem empty_range_returns_nothing:
  "toBlock < fromBlock \<Longrightarrow>
     getLogsSafe getLogs pushErr chain fromBlock toBlock s = (Inr [], s, []) \<and>
     inflowAdapter lib getLogs pushErr chain fromBlock toBlock s = (Inr [], s, []) \<and>
     outflowAdapter lib getLogs pushErr fromBlock toBlock s = (Inr [], s, [])"
  by (simp add: getLogsSafe_def inflowAdapter_def outflowAdapter_def chunk_loop_done)

theorem empty_range_returns_nothing_witness:
  "(5::int) < 10 \<and>
     getLogsSafe (node 0 []) push_never_throws ''bsc'' 10 5 0 = (Inr [], 0, []) \<and>
     inflowAdapter example_lib (node 0 []) push_never_throws ''bsc'' 10 5 0 = (Inr [], 0, []) \<and>
     outflowAdapter example_lib (node 0 []) push_never_throws 10 5 0 = (Inr [], 0, [])"
  using empty_range_returns_nothing
    [of 5 10 "node 0 []" "push_never_throws :: (string, log) push_failure" "''bsc''" 0 example_lib]
  by simp

section \<open>Digits and numbers\<close>

lemma decimal_digit_cases:
  "decimal_digit ch \<longleftrightarrow>
     ch = CHR ''0'' \<or> ch = CHR ''1'' \<or> ch = CHR ''2'' \<or> ch = CHR ''3'' \<or> ch = CHR ''4'' \<or>
     ch = CHR ''5'' \<or> ch = CHR ''6'' \<or> ch = CHR ''7'' \<or> ch = CHR ''8'' \<or> ch = CHR ''9''"
  by (simp add: decimal_digit_def)

lemma is_digit_decimal: "is_digit ch = decimal_digit ch"
proof
  assume "is_digit ch"
  then have "48 \<le> (of_char ch :: nat)" "(of_char ch :: nat) \<le> 57"
    by (simp_all add: is_digit_def)
  then have "(of_char ch :: nat) = 48 \<or> (of_char ch :: nat) = 49 \<or> (of_char ch :: nat) = 50 \<or>
      (of_char ch :: nat) = 51 \<or> (of_char ch :: nat) = 52 \<or> (of_char ch :: nat) = 53 \<or>
      (of_char ch :: nat) = 54 \<or> (of_char ch :: nat) = 55 \<or> (of_char ch :: nat) = 56 \<or>
      (of_char ch :: nat) = 57"
    by arith
  then have "(of_char ch :: nat) = of_char CHR ''0'' \<or> (of_char ch :: nat) = of_char CHR ''1'' \<or>
      (of_char ch :: nat) = of_char CHR ''2'' \<or> (of_char ch :: nat) = of_char CHR ''3'' \<or>
      (of_char ch :: nat) = of_char CHR ''4'' \<or> (of_char ch :: nat) = of_char CHR ''5'' \<or>
      (of_char ch :: nat) = of_char CHR ''6'' \<or> (of_char ch :: nat) = of_char CHR ''7'' \<or>
      (of_char ch :: nat) = of_char CHR ''8'' \<or> (of_char ch :: nat) = of_char CHR ''9''"
    by simp
  then show "decimal_digit ch"
    by (simp only: of_char_eq_iff decimal_digit_cases)
next
  assume "decimal_digit ch"
  then show "is_digit ch"
    unfolding decimal_digit_cases by (elim disjE) (simp_all add: is_digit_def)
qed

lemma digit_value_of_char: "decimal_digit ch \<Longrightarrow> digit_value ch = of_char ch - 48"
  unfolding decimal_digit_cases by (elim disjE) (simp_all add: digit_value_def)

lemma foldl_decimal_value:
  "\<forall>d\<in>set ds. decimal_digit d \<Longrightarrow>
     foldl (\<lambda>n d. 10 * n + (of_char d - 48)) acc ds = acc * 10 ^ length ds + decimal_value ds"
proof (induction ds arbitrary: acc)
  case Nil
  then show ?case by simp
next
  case (Cons d ds)
  then have "foldl (\<lambda>n d. 10 * n + (of_char d - 48)) (10 * acc + (of_char d - 48)) ds =
      (10 * acc + (of_char d - 48)) * 10 ^ length ds + decimal_value ds"
    by simp
  moreover have "digit_value d = of_char d - 48"
    using Cons.prems by (simp add: digit_value_of_char)
  ultimately show ?case by (simp add: algebra_simps)
qed

lemma Number_digits:
  "\<forall>d\<in>set ds. decimal_digit d \<Longrightarrow> Number ds = nearest_double (decimal_value ds)"
  by (simp add: Number_def foldl_decimal_value)



lemma nearest_double_small: "n \<le> 2 ^ 53 \<Longrightarrow> nearest_double n = Finite n"
proof (cases "n < 2 ^ 53")
  case True
  then show ?thesis by (simp add: nearest_double_def)
next
  case False
  assume "n \<le> 2 ^ 53"
  with False have "n = 9007199254740992" by simp
  then show ?thesis
    by (simp add: nearest_double_def Let_def bit_length.simps)
qed


lemma is_digit_eq: "is_digit = decimal_digit"
  by (rule ext) (rule is_digit_decimal)

section \<open>The regular expression\<close>

lemma key_digits_Some:
  "key_digits s = Some ds \<longleftrightarrow>
     2 < length s \<and> s ! 0 = CHR ''c'' \<and> s ! 1 = CHR ''='' \<and> is_digit (s ! 2) \<and>
     ds = takeWhile is_digit (drop 2 s)"
proof (cases s rule: key_digits.cases)
  case (1 k q rest)
  then show ?thesis
    by (cases rest) auto
qed simp_all


lemma key_digits_drop:
  "key_digits (drop i s) = Some ds \<longleftrightarrow>
     i + 2 < length s \<and> s ! i = CHR ''c'' \<and> s ! (i + 1) = CHR ''='' \<and> is_digit (s ! (i + 2)) \<and>
     ds = takeWhile is_digit (drop (i + 2) s)"
  by (auto simp: key_digits_Some add.commute)

lemma after_delimiter_Some:
  "after_delimiter s = Some ds \<Longrightarrow>
     \<exists>j<length s. delimiter (s ! j) \<and> key_digits (drop (Suc j) s) = Some ds \<and>
       (\<forall>k<j. \<not> (delimiter (s ! k) \<and> key_digits (drop (Suc k) s) \<noteq> None))"
proof (induction s)
  case Nil
  then show ?case by simp
next
  case (Cons d rest)
  show ?case
  proof (cases "delimiter d \<and> key_digits rest \<noteq> None")
    case True
    with Cons.prems have "key_digits rest = Some ds"
      by (auto simp: delimiter_def)
    with True show ?thesis by (intro exI [of _ 0]) simp
  next
    case False
    with Cons.prems have "after_delimiter rest = Some ds"
      by (auto simp: delimiter_def split: if_splits option.splits)
    from Cons.IH [OF this] obtain j where j: "j < length rest" "delimiter (rest ! j)"
      "key_digits (drop (Suc j) rest) = Some ds"
      "\<forall>k<j. \<not> (delimiter (rest ! k) \<and> key_digits (drop (Suc k) rest) \<noteq> None)"
      by blast
    have "\<forall>k<Suc j. \<not> (delimiter ((d # rest) ! k) \<and> key_digits (drop (Suc k) (d # rest)) \<noteq> None)"
    proof (intro allI impI)
      fix k assume "k < Suc j"
      then show "\<not> (delimiter ((d # rest) ! k) \<and> key_digits (drop (Suc k) (d # rest)) \<noteq> None)"
        using False j(4) by (cases k) auto
    qed
    with j(1-3) show ?thesis by (intro exI [of _ "Suc j"]) simp
  qed
qed

lemma after_delimiter_None:
  "after_delimiter s = None \<Longrightarrow> k < length s \<Longrightarrow>
     \<not> (delimiter (s ! k) \<and> key_digits (drop (Suc k) s) \<noteq> None)"
proof (induction s arbitrary: k)
  case Nil
  then show ?case by simp
next
  case (Cons d rest)
  from Cons.prems(1) have rest: "after_delimiter rest = None"
    and here: "\<not> (delimiter d \<and> key_digits rest \<noteq> None)"
    by (auto simp: delimiter_def split: if_splits option.splits)
  show ?case
  proof (cases k)
    case 0
    with here show ?thesis by simp
  next
    case (Suc k')
    with Cons.prems(2) Cons.IH [OF rest, of k'] show ?thesis by simp
  qed
qed

lemma key_at_0: "key_at text 0 \<longleftrightarrow> key_digits text \<noteq> None"
  using key_digits_drop [of 0 "text"] by (auto simp: key_at_def is_digit_decimal)

lemma key_at_Suc:
  "key_at text (Suc j) \<longleftrightarrow> delimiter (text ! j) \<and> key_digits (drop (Suc j) text) \<noteq> None"
  using key_digits_drop [of "Suc j" "text"]
  by (auto simp: key_at_def delimiter_def is_digit_decimal)

lemma first_key_Some:
  "first_key text = Some i \<longleftrightarrow> key_at text i \<and> (\<forall>j<i. \<not> key_at text j)"
proof -
  have "key_at text i \<Longrightarrow> i < length text" by (simp add: key_at_def)
  then show ?thesis
    by (auto simp: first_key_def find_Some_iff)
qed

lemma first_key_None: "first_key text = None \<longleftrightarrow> (\<forall>i. \<not> key_at text i)"
proof -
  have "key_at text i \<Longrightarrow> i < length text" for i by (simp add: key_at_def)
  then show ?thesis
    by (auto simp: first_key_def find_None_iff)
qed

lemma match_c_first_key:
  "match_c text =
     (case first_key text of
        None \<Rightarrow> None
      | Some i \<Rightarrow> Some (digits_after text i))"
proof (cases "key_digits text")
  case (Some ds)
  then have "first_key text = Some 0" by (simp add: first_key_Some key_at_0)
  moreover from Some have "ds = takeWhile is_digit (drop 2 text)"
    unfolding key_digits_Some by blast
  ultimately show ?thesis using Some by (simp add: match_c_def numeral_2_eq_2 digits_after_def is_digit_eq)
next
  case None
  then have no0: "\<not> key_at text 0" by (simp add: key_at_0)
  show ?thesis
  proof (cases "after_delimiter text")
    case (Some ds)
    from after_delimiter_Some [OF this] obtain j where j: "j < length text" "delimiter (text ! j)"
      "key_digits (drop (Suc j) text) = Some ds"
      "\<forall>k<j. \<not> (delimiter (text ! k) \<and> key_digits (drop (Suc k) text) \<noteq> None)"
      by blast
    have "key_at text (Suc j)" using j(2,3) by (simp add: key_at_Suc)
    moreover have "\<not> key_at text k" if "k < Suc j" for k
      using that no0 j(4) by (cases k) (auto simp: key_at_Suc)
    ultimately have "first_key text = Some (Suc j)" by (simp add: first_key_Some)
    moreover from j(3) have "ds = takeWhile is_digit (drop (Suc j + 2) text)"
      unfolding key_digits_drop by blast
    ultimately show ?thesis using None Some by (simp add: match_c_def numeral_2_eq_2 digits_after_def is_digit_eq)
  next
    case none: None
    have "\<not> key_at text i" for i
    proof (cases i)
      case 0
      with no0 show ?thesis by simp
    next
      case (Suc j)
      show ?thesis
      proof
        assume k: "key_at text i"
        then have "j < length text" using Suc by (simp add: key_at_def)
        from after_delimiter_None [OF none this] k Suc show False by (simp add: key_at_Suc)
      qed
    qed
    then have "first_key text = None" by (simp add: first_key_None)
    with None none show ?thesis by (simp add: match_c_def)
  qed
qed


lemma digits_after_decimal: "\<forall>d\<in>set (digits_after text i). decimal_digit d"
  by (auto simp: digits_after_def dest: set_takeWhileD)

lemma getDestinationChainId_decoded:
  assumes "toUtf8String lib x = Some text \<or>
           (toUtf8String lib x = None \<and> bufferToString lib x = Some text)"
  shows "getDestinationChainId lib x =
     (case first_key text of
        None \<Rightarrow> None
      | Some i \<Rightarrow> Some (nearest_double (decimal_value (digits_after text i))))"
  using assms
  by (auto simp: getDestinationChainId_def match_c_first_key Number_digits digits_after_decimal
           split: option.splits)

lemma inflow_events_append:
  "inflow_events lib (xs @ ys) = inflow_events lib xs @ inflow_events lib ys"
  by (induction xs) (auto split: option.splits)

lemma outflow_events_append:
  "outflow_events lib (xs @ ys) = outflow_events lib xs @ outflow_events lib ys"
  by (induction xs) (auto split: option.splits)

lemma destination_examples:
  "getDestinationChainId example_lib ''r=1&c=173&x=9'' = Some (Finite 173)"
  "getDestinationChainId example_lib ''xc=5'' = None"
  "getDestinationChainId example_lib ''c=0173'' = Some (Finite 173)"
  "getDestinationChainId example_lib ''c=&c=5?c=7'' = Some (Finite 5)"
  "getDestinationChainId example_lib ''xyz'' = None"
  "getDestinationChainId example_lib ''c=18014398509481990'' = Some (Finite 18014398509481992)"
  "getDestinationChainId \<lparr>parseLog = (\<lambda>l. None), toUtf8String = (\<lambda>x. None),
     bufferToString = (\<lambda>x. None)\<rparr> ''c=173'' = None"
  by (simp_all add: classifier_eval bit_length.simps)

section \<open>The destination of a decoded text\<close>




section \<open>Classification\<close>

text \<open>
  C5. A log that decodes, with destination id \<open>D\<close>, yields a record in inflow mode if and
  only if \<open>D = 173\<close>, and a record in outflow mode if and only if \<open>D \<noteq> 173\<close>; it never
  yields a record in both modes. What it yields does not depend on the logs around it.
\<close>

theorem direction_partition:
  assumes "parseLog lib log' = Some parsed"
    and "getDestinationChainId lib (extData parsed) = Some D"
  shows "(inflow_events lib [log'] \<noteq> [] \<longleftrightarrow> D = Finite 173) \<and>
         (outflow_events lib [log'] \<noteq> [] \<longleftrightarrow> D \<noteq> Finite 173) \<and>
         \<not> (inflow_events lib [log'] \<noteq> [] \<and> outflow_events lib [log'] \<noteq> []) \<and>
         inflow_events lib (before @ log' # after) =
           inflow_events lib before @ inflow_events lib [log'] @ inflow_events lib after \<and>
         outflow_events lib (before @ log' # after) =
           outflow_events lib before @ outflow_events lib [log'] @ outflow_events lib after"
proof -
  have "inflow_events lib (before @ log' # after) =
      inflow_events lib before @ inflow_events lib ([log'] @ after)"
    by (simp only: inflow_events_append append_Cons append_Nil)
  moreover have "outflow_events lib (before @ log' # after) =
      outflow_events lib before @ outflow_events lib ([log'] @ after)"
    by (simp only: outflow_events_append append_Cons append_Nil)
  ultimately show ?thesis using assms
    by (simp add: isDestinationENI_def inflow_events_append outflow_events_append
             del: inflow_events.simps outflow_events.simps)
       (simp add: isDestinationENI_def)
qed

theorem direction_partition_witness:
  "parseLog example_lib (example_log 10 ''c=173'') =
     Some \<lparr>sender = ''0xa1'', recipient = ''0xb2'', inputToken = ''0xc3'', outputToken = ''0xd4'',
           inputAmount = 1000, extData = ''c=173''\<rparr> \<and>
   getDestinationChainId example_lib ''c=173'' = Some (Finite 173) \<and>
   inflow_events example_lib [example_log 10 ''c=173''] \<noteq> [] \<and>
   outflow_events example_lib [example_log 10 ''c=173''] = [] \<and>
   parseLog example_lib (example_log 150 ''c=56'') =
     Some \<lparr>sender = ''0xa1'', recipient = ''0xb2'', inputToken = ''0xc3'', outputToken = ''0xd4'',
           inputAmount = 1000, extData = ''c=56''\<rparr> \<and>
   getDestinationChainId example_lib ''c=56'' = Some (Finite 56) \<and>
   inflow_events example_lib [example_log 150 ''c=56''] = [] \<and>
   outflow_events example_lib [example_log 150 ''c=56''] \<noteq> []"
proof -
  let ?p = "\<lambda>t. \<lparr>sender = ''0xa1'', recipient = ''0xb2'', inputToken = ''0xc3'',
                  outputToken = ''0xd4'', inputAmount = 1000, extData = t\<rparr>"
  have p1: "parseLog example_lib (example_log 10 ''c=173'') = Some (?p ''c=173'')"
    by (simp add: example_lib_def example_log_def)
  have d1: "getDestinationChainId example_lib (extData (?p ''c=173'')) = Some (Finite 173)"
    by (simp add: classifier_eval)
  have p2: "parseLog example_lib (example_log 150 ''c=56'') = Some (?p ''c=56'')"
    by (simp add: example_lib_def example_log_def)
  have d2: "getDestinationChainId example_lib (extData (?p ''c=56'')) = Some (Finite 56)"
    by (simp add: classifier_eval)
  note a = direction_partition [OF p1 d1, of "[]" "[]"]
  note b = direction_partition [OF p2 d2, of "[]" "[]"]
  from a have a1: "inflow_events example_lib [example_log 10 ''c=173''] \<noteq> []"
    and a2: "outflow_events example_lib [example_log 10 ''c=173''] = []"
    by simp_all
  from b have b1: "inflow_events example_lib [example_log 150 ''c=56''] = []"
    and b2: "outflow_events example_lib [example_log 150 ''c=56''] \<noteq> []"
    by simp_all
  from d1 have e1: "getDestinationChainId example_lib ''c=173'' = Some (Finite 173)" by simp
  from d2 have e2: "getDestinationChainId example_lib ''c=56'' = Some (Finite 56)" by simp
  from p1 e1 a1 a2 p2 e2 b1 b2 show ?thesis by blast
qed

text \<open>
  C6. Every record an adapter emits copies the transaction hash and the block number of
  its log and the sender, recipient, input token and input amount of the decoded event,
  with \<open>isDeposit = true\<close> in inflow mode and \<open>isDeposit = false\<close> in outflow mode. A
  log whose routing text is \<open>r=1&c=173&x=9\<close> yields exactly one record in inflow mode,
  with \<open>isDeposit = true\<close>, and none in outflow mode.
\<close>

theorem records_copy_fields:
  "(\<forall>e\<in>set (inflow_events lib logs). \<exists>l\<in>set logs. \<exists>p. parseLog lib l = Some p \<and>
      e = \<lparr>txHash = transactionHash l, blockNumber' = blockNumber l, from' = sender p,
            to' = recipient p, token = inputToken p, amount = inputAmount p,
            isDeposit = True\<rparr>) \<and>
   (\<forall>e\<in>set (outflow_events lib logs). \<exists>l\<in>set logs. \<exists>p. parseLog lib l = Some p \<and>
      e = \<lparr>txHash = transactionHash l, blockNumber' = blockNumber l, from' = sender p,
            to' = recipient p, token = inputToken p, amount = inputAmount p,
            isDeposit = False\<rparr>) \<and>
   (parseLog lib log' = Some parsed \<and>
    toUtf8String lib (extData parsed) = Some ''r=1&c=173&x=9'' \<longrightarrow>
      inflow_events lib [log'] =
        [\<lparr>txHash = transactionHash log', blockNumber' = blockNumber log', from' = sender parsed,
          to' = recipient parsed, token = inputToken parsed, amount = inputAmount parsed,
          isDeposit = True\<rparr>] \<and>
      outflow_events lib [log'] = [])"
proof (intro conjI impI)
  show "\<forall>e\<in>set (inflow_events lib logs). \<exists>l\<in>set logs. \<exists>p. parseLog lib l = Some p \<and>
      e = \<lparr>txHash = transactionHash l, blockNumber' = blockNumber l, from' = sender p,
            to' = recipient p, token = inputToken p, amount = inputAmount p,
            isDeposit = True\<rparr>"
    by (induction logs) (auto split: option.splits if_splits)
  show "\<forall>e\<in>set (outflow_events lib logs). \<exists>l\<in>set logs. \<exists>p. parseLog lib l = Some p \<and>
      e = \<lparr>txHash = transactionHash l, blockNumber' = blockNumber l, from' = sender p,
            to' = recipient p, token = inputToken p, amount = inputAmount p,
            isDeposit = False\<rparr>"
    by (induction logs) (auto split: option.splits if_splits)
next
  assume h: "parseLog lib log' = Some parsed \<and>
    toUtf8String lib (extData parsed) = Some ''r=1&c=173&x=9''"
  have key: "first_key ''r=1&c=173&x=9'' = Some 4" by code_simp
  have run: "digits_after ''r=1&c=173&x=9'' 4 = ''173''" by code_simp
  have val: "decimal_value ''173'' = 173" by (simp add: digit_value_def)
  have "nearest_double 173 = Finite 173" by (rule nearest_double_small) simp
  with h key run val getDestinationChainId_decoded [of lib "extData parsed" "''r=1&c=173&x=9''"]
  have eni: "isDestinationENI lib (extData parsed)"
    by (simp add: isDestinationENI_def)
  with h show "inflow_events lib [log'] =
        [\<lparr>txHash = transactionHash log', blockNumber' = blockNumber log', from' = sender parsed,
          to' = recipient parsed, token = inputToken parsed, amount = inputAmount parsed,
          isDeposit = True\<rparr>]"
    by simp
  from h eni show "outflow_events lib [log'] = []" by simp
qed

theorem records_copy_fields_witness:
  "parseLog example_lib (example_log 42 ''r=1&c=173&x=9'') =
     Some \<lparr>sender = ''0xa1'', recipient = ''0xb2'', inputToken = ''0xc3'', outputToken = ''0xd4'',
           inputAmount = 1000, extData = ''r=1&c=173&x=9''\<rparr> \<and>
   toUtf8String example_lib ''r=1&c=173&x=9'' = Some ''r=1&c=173&x=9'' \<and>
   inflow_events example_lib [example_log 42 ''r=1&c=173&x=9''] =
     [\<lparr>txHash = ''0xf00d'', blockNumber' = 42, from' = ''0xa1'', to' = ''0xb2'',
       token = ''0xc3'', amount = 1000, isDeposit = True\<rparr>] \<and>
   outflow_events example_lib [example_log 42 ''r=1&c=173&x=9''] = []"
proof -
  let ?p = "\<lparr>sender = ''0xa1'', recipient = ''0xb2'', inputToken = ''0xc3'',
             outputToken = ''0xd4'', inputAmount = 1000, extData = ''r=1&c=173&x=9''\<rparr>"
  have p: "parseLog example_lib (example_log 42 ''r=1&c=173&x=9'') = Some ?p"
    by (simp add: example_lib_def example_log_def)
  have u: "toUtf8String example_lib (extData ?p) = Some ''r=1&c=173&x=9''"
    by (simp add: example_lib_def)
  note r = records_copy_fields [of example_lib "[]" "example_log 42 ''r=1&c=173&x=9''" ?p]
  from r p u have
    i: "inflow_events example_lib [example_log 42 ''r=1&c=173&x=9''] =
        [\<lparr>txHash = transactionHash (example_log 42 ''r=1&c=173&x=9''),
          blockNumber' = blockNumber (example_log 42 ''r=1&c=173&x=9''), from' = sender ?p,
          to' = recipient ?p, token = inputToken ?p, amount = inputAmount ?p,
          isDeposit = True\<rparr>]"
    and o: "outflow_events example_lib [example_log 42 ''r=1&c=173&x=9''] = []"
    by blast+
  from i have i': "inflow_events example_lib [example_log 42 ''r=1&c=173&x=9''] =
     [\<lparr>txHash = ''0xf00d'', blockNumber' = 42, from' = ''0xa1'', to' = ''0xb2'',
       token = ''0xc3'', amount = 1000, isDeposit = True\<rparr>]"
    by (simp only: i) (simp add: example_log_def)
  have u': "toUtf8String example_lib ''r=1&c=173&x=9'' = Some ''r=1&c=173&x=9''"
    by (simp add: example_lib_def)
  from p u' i' o show ?thesis by blast
qed

text \<open>
  C2, as the code has it. A decoded log whose routing payload yields no destination id
  yields no record in inflow mode, and one record with \<open>isDeposit = false\<close> in outflow
  mode: outflow mode keeps every decoded event whose destination id is not 173, an
  unknown destination included.
\<close>

theorem undecodable_destination:
  assumes "parseLog lib log' = Some parsed"
    and "getDestinationChainId lib (extData parsed) = None"
  shows "inflow_events lib [log'] = [] \<and>
         outflow_events lib [log'] =
           [\<lparr>txHash = transactionHash log', blockNumber' = blockNumber log', from' = sender parsed,
             to' = recipient parsed, token = inputToken parsed, amount = inputAmount parsed,
             isDeposit = False\<rparr>]"
  using assms by (simp add: isDestinationENI_def)

theorem undecodable_destination_witness:
  "parseLog example_lib (example_log 7 ''xyz'') =
     Some \<lparr>sender = ''0xa1'', recipient = ''0xb2'', inputToken = ''0xc3'', outputToken = ''0xd4'',
           inputAmount = 1000, extData = ''xyz''\<rparr> \<and>
   getDestinationChainId example_lib ''xyz'' = None \<and>
   inflow_events example_lib [example_log 7 ''xyz''] = [] \<and>
   outflow_events example_lib [example_log 7 ''xyz''] =
     [\<lparr>txHash = ''0xf00d'', blockNumber' = 7, from' = ''0xa1'', to' = ''0xb2'',
       token = ''0xc3'', amount = 1000, isDeposit = False\<rparr>]"
proof -
  let ?p = "\<lparr>sender = ''0xa1'', recipient = ''0xb2'', inputToken = ''0xc3'',
             outputToken = ''0xd4'', inputAmount = 1000, extData = ''xyz''\<rparr>"
  have p: "parseLog example_lib (example_log 7 ''xyz'') = Some ?p"
    by (simp add: example_lib_def example_log_def)
  have d: "getDestinationChainId example_lib (extData ?p) = None"
    by (simp add: classifier_eval)
  from undecodable_destination [OF p d] p d show ?thesis
    by (simp add: example_log_def)
qed

text \<open>
  The claim C2 as stated fails: the routing text \<open>xyz\<close> has no key, the destination is
  unknown, and the outflow pass emits a record for the log.
\<close>

theorem undecodable_destination_counterexample:
  "parseLog example_lib (example_log 7 ''xyz'') =
     Some \<lparr>sender = ''0xa1'', recipient = ''0xb2'', inputToken = ''0xc3'', outputToken = ''0xd4'',
           inputAmount = 1000, extData = ''xyz''\<rparr> \<and>
   toUtf8String example_lib ''xyz'' = Some ''xyz'' \<and>
   match_c ''xyz'' = None \<and>
   getDestinationChainId example_lib ''xyz'' = None \<and>
   outflow_events example_lib [example_log 7 ''xyz''] =
     [\<lparr>txHash = ''0xf00d'', blockNumber' = 7, from' = ''0xa1'', to' = ''0xb2'',
       token = ''0xc3'', amount = 1000, isDeposit = False\<rparr>]"
  by (simp add: classifier_eval)

end
